theory Spec2Isabelle
  imports Main "HOL-Library.Word"
begin

section \<open>Data model of the DAG scheduler\<close>

text \<open>
  The development embeds \<^verbatim>\<open>minerva/backend/dag/dag_scheduler.cpp\<close>. Node ids
  (\<^verbatim>\<open>uint64_t\<close>) are natural numbers; a node pointer is the id of the node it
  points to. The header that declares \<^verbatim>\<open>RuntimeInfo\<close> is not part of the sources
  at hand; its two counters and the global \<^verbatim>\<open>num_nodes_yet_to_finish_\<close> are
  integers here, so that a decrement below zero is visible as a negative number.
\<close>

text \<open>
  Record fields carry the names of the C++ members without the trailing underscore
  (\<open>dag\<close> for \<^verbatim>\<open>dag_\<close>, \<open>predecessors\<close> for \<^verbatim>\<open>predecessors_\<close>, ...).
  \<open>kOther\<close> stands for any enumerator of \<^verbatim>\<open>NodeState\<close> besides the two the
  scheduler names.
\<close>

datatype NodeState = kReady | kCompleted | kOther

datatype TaskType = kToRun | kToComplete

datatype NodeType = kOpNode | kDataNode

record RuntimeInfo =
  num_triggers_needed :: int
  reference_count :: int
  state :: NodeState

record PhysicalData =
  data_size :: "nat list"
  device_id :: nat
  data_id :: nat
  extern_rc :: int

record PhysicalOp =
  compute_fn :: nat
  op_device_id :: nat

datatype NodeBody =
    DataBody PhysicalData
  | OpBody PhysicalOp "nat list" "nat list"

record DagNode =
  predecessors :: "nat list"
  successors :: "nat list"
  body :: NodeBody

record Task =
  task_inputs :: "(PhysicalData \<times> nat) list"
  task_outputs :: "(PhysicalData \<times> nat) list"
  task_op :: PhysicalOp
  task_id :: nat

datatype BackendChunk = DagChunk nat | ForeignChunk

datatype action =
    ALock "nat list"
  | AUnlock
  | ANewDataNode nat
  | ANewOpNode nat
  | AAddNode nat
  | ARemoveNode nat
  | AIncRef nat
  | ADecRef nat
  | AIncTriggers nat
  | ADecTriggers nat
  | ASetCompleted nat
  | AIncYetToFinish
  | ADecYetToFinish
  | AQueuePush TaskType nat
  | APushTask nat Task
  | AFreeData nat
  | ARemoveNodeFromDag nat
  | ADelete nat
  | ANotifyAll

datatype error = Check nat | NoNode nat | NoInfo nat

record scheduler =
  dag :: "nat \<rightharpoonup> DagNode"
  dag_next_id :: nat
  rt_info :: "nat \<rightharpoonup> RuntimeInfo"
  dispatcher_queue :: "(TaskType \<times> nat) list"
  num_nodes_yet_to_finish :: int
  target :: int
  dm_tasks :: "Task list"
  next_data_id :: nat
  current_device_id :: nat
  trace :: "action list"

definition Type :: "DagNode \<Rightarrow> NodeType" where
  "Type nd = (case body nd of DataBody d \<Rightarrow> kDataNode | OpBody p ins outs \<Rightarrow> kOpNode)"


section \<open>Sequencing of fallible steps\<close>

text \<open>
  A failed \<^verbatim>\<open>CHECK\<close> or a \<^verbatim>\<open>LOG(FATAL)\<close> aborts the process. It is the
  value \<open>Inl (Check l)\<close>, where \<open>l\<close> is the source line of the check. Looking up a
  node or a runtime-info entry that does not exist is \<open>Inl (NoNode i)\<close> or
  \<open>Inl (NoInfo i)\<close>.
\<close>

definition bind_err :: "error + 'a \<Rightarrow> ('a \<Rightarrow> error + 'b) \<Rightarrow> error + 'b" where
  "bind_err m f = (case m of Inl e \<Rightarrow> Inl e | Inr x \<Rightarrow> f x)"

fun Iter :: "'a list \<Rightarrow> ('a \<Rightarrow> 's \<Rightarrow> error + 's) \<Rightarrow> 's \<Rightarrow> error + 's" where
  "Iter [] f s = Inr s"
| "Iter (x # xs) f s = bind_err (f x s) (Iter xs f)"

fun MapE :: "'a list \<Rightarrow> ('a \<Rightarrow> error + 'b) \<Rightarrow> error + 'b list" where
  "MapE [] f = Inr []"
| "MapE (x # xs) f = bind_err (f x) (\<lambda>y. bind_err (MapE xs f) (\<lambda>ys. Inr (y # ys)))"

definition emit :: "action \<Rightarrow> scheduler \<Rightarrow> scheduler" where
  "emit a s = s\<lparr>trace := trace s @ [a]\<rparr>"

section \<open>RuntimeInfoMap\<close>

text \<open>
  Modelled from the spec: the class \<^verbatim>\<open>RuntimeInfoMap\<close> is declared outside the
  sources at hand. A new entry has state \<open>kReady\<close> and both counters 0; \<open>At\<close> and
  \<open>GetState\<close> of an id without entry abort.
\<close>

definition AddNode :: "nat \<Rightarrow> scheduler \<Rightarrow> scheduler" where
  "AddNode i s = emit (AAddNode i)
     (s\<lparr>rt_info := (rt_info s)(i \<mapsto>
        \<lparr>num_triggers_needed = 0, reference_count = 0, state = kReady\<rparr>)\<rparr>)"

definition RemoveNode :: "nat \<Rightarrow> scheduler \<Rightarrow> scheduler" where
  "RemoveNode i s = emit (ARemoveNode i) (s\<lparr>rt_info := (rt_info s)(i := None)\<rparr>)"

definition At :: "nat \<Rightarrow> scheduler \<Rightarrow> error + RuntimeInfo" where
  "At i s = (case rt_info s i of None \<Rightarrow> Inl (NoInfo i) | Some ri \<Rightarrow> Inr ri)"

definition GetState :: "nat \<Rightarrow> scheduler \<Rightarrow> error + NodeState" where
  "GetState i s = bind_err (At i s) (\<lambda>ri. Inr (state ri))"

text \<open>A write through the reference that \<open>At\<close> returned.\<close>

definition set_info :: "nat \<Rightarrow> RuntimeInfo \<Rightarrow> scheduler \<Rightarrow> scheduler" where
  "set_info i ri s = s\<lparr>rt_info := (rt_info s)(i \<mapsto> ri)\<rparr>"

section \<open>PhysicalDag\<close>

text \<open>
  Modelled from the spec: the class \<^verbatim>\<open>PhysicalDag\<close> and the node classes are
  declared outside the sources at hand. Ids are handed out by a counter. The predecessor
  and successor sets of a node are lists without repetition, in insertion order.
  \<open>NewOpNode\<close> adds an edge from every input to the new node and from the new node to
  every output. \<open>RemoveNodeFromDag\<close> takes the node out of the index and out of the edge
  sets of its neighbours; the node object it returns keeps its own two sets.
\<close>

definition GetNode :: "nat \<Rightarrow> scheduler \<Rightarrow> error + DagNode" where
  "GetNode i s = (case dag s i of None \<Rightarrow> Inl (NoNode i) | Some nd \<Rightarrow> Inr nd)"

definition insert_id :: "nat \<Rightarrow> nat list \<Rightarrow> nat list" where
  "insert_id x xs = (if x \<in> set xs then xs else xs @ [x])"

definition add_succ :: "nat \<Rightarrow> nat \<Rightarrow> (nat \<rightharpoonup> DagNode) \<Rightarrow> (nat \<rightharpoonup> DagNode)" where
  "add_succ u v g = (case g u of None \<Rightarrow> g
     | Some nd \<Rightarrow> g(u \<mapsto> nd\<lparr>successors := insert_id v (successors nd)\<rparr>))"

definition add_pred :: "nat \<Rightarrow> nat \<Rightarrow> (nat \<rightharpoonup> DagNode) \<Rightarrow> (nat \<rightharpoonup> DagNode)" where
  "add_pred v u g = (case g v of None \<Rightarrow> g
     | Some nd \<Rightarrow> g(v \<mapsto> nd\<lparr>predecessors := insert_id u (predecessors nd)\<rparr>))"

definition add_edge :: "nat \<Rightarrow> nat \<Rightarrow> (nat \<rightharpoonup> DagNode) \<Rightarrow> (nat \<rightharpoonup> DagNode)" where
  "add_edge u v g = add_pred v u (add_succ u v g)"

definition del_succ :: "nat \<Rightarrow> nat \<Rightarrow> (nat \<rightharpoonup> DagNode) \<Rightarrow> (nat \<rightharpoonup> DagNode)" where
  "del_succ u v g = (case g u of None \<Rightarrow> g
     | Some nd \<Rightarrow> g(u \<mapsto> nd\<lparr>successors := removeAll v (successors nd)\<rparr>))"

definition del_pred :: "nat \<Rightarrow> nat \<Rightarrow> (nat \<rightharpoonup> DagNode) \<Rightarrow> (nat \<rightharpoonup> DagNode)" where
  "del_pred v u g = (case g v of None \<Rightarrow> g
     | Some nd \<Rightarrow> g(v \<mapsto> nd\<lparr>predecessors := removeAll u (predecessors nd)\<rparr>))"

definition NewDataNode :: "PhysicalData \<Rightarrow> scheduler \<Rightarrow> nat \<times> scheduler" where
  "NewDataNode d s =
     (let i = dag_next_id s
      in (i, emit (ANewDataNode i)
           (s\<lparr>dag := (dag s)(i \<mapsto> \<lparr>predecessors = [], successors = [], body = DataBody d\<rparr>),
              dag_next_id := i + 1\<rparr>)))"

definition NewOpNode :: "nat list \<Rightarrow> nat list \<Rightarrow> PhysicalOp \<Rightarrow> scheduler \<Rightarrow> nat \<times> scheduler" where
  "NewOpNode inputs outputs p s =
     (let i = dag_next_id s;
          g0 = (dag s)(i \<mapsto> \<lparr>predecessors = [], successors = [], body = OpBody p inputs outputs\<rparr>);
          g1 = fold (\<lambda>d. add_edge d i) inputs g0;
          g2 = fold (\<lambda>d. add_edge i d) outputs g1
      in (i, emit (ANewOpNode i) (s\<lparr>dag := g2, dag_next_id := i + 1\<rparr>)))"

definition RemoveNodeFromDag :: "nat \<Rightarrow> scheduler \<Rightarrow> error + scheduler" where
  "RemoveNodeFromDag i s =
     bind_err (GetNode i s) (\<lambda>nd.
       let g0 = (dag s)(i := None);
           g1 = fold (\<lambda>p. del_succ p i) (predecessors nd) g0;
           g2 = fold (\<lambda>c. del_pred c i) (successors nd) g1
       in Inr (emit (ARemoveNodeFromDag i) (s\<lparr>dag := g2\<rparr>)))"

text \<open>
  \<^verbatim>\<open>CHECK_NOTNULL(dynamic_cast<PhysicalDataNode*>(p))\<close> at source line \<open>l\<close>, followed by
  a read of the node's \<^verbatim>\<open>data_\<close>.
\<close>

definition data_node :: "nat \<Rightarrow> nat \<Rightarrow> scheduler \<Rightarrow> error + PhysicalData" where
  "data_node l i s =
     bind_err (GetNode i s) (\<lambda>nd.
       case body nd of DataBody d \<Rightarrow> Inr d | OpBody p ins outs \<Rightarrow> Inl (Check l))"

section \<open>MinervaSystem and the device manager\<close>

text \<open>
  Modelled from the spec: \<^verbatim>\<open>GenerateDataId\<close> hands out fresh value ids; a device
  keeps the tasks pushed to it until it reports them complete; \<^verbatim>\<open>FreeData\<close>
  releases the storage of a value id. The shape product \<^verbatim>\<open>Scale::Prod\<close> is the
  product of the extents.
\<close>

definition GenerateDataId :: "scheduler \<Rightarrow> nat \<times> scheduler" where
  "GenerateDataId s = (next_data_id s, s\<lparr>next_data_id := next_data_id s + 1\<rparr>)"

definition PushTask :: "nat \<Rightarrow> Task \<Rightarrow> scheduler \<Rightarrow> scheduler" where
  "PushTask dev t s = emit (APushTask dev t) (s\<lparr>dm_tasks := dm_tasks s @ [t]\<rparr>)"

definition FreeData :: "nat \<Rightarrow> scheduler \<Rightarrow> scheduler" where
  "FreeData v s = emit (AFreeData v) s"



section \<open>DagScheduler\<close>

definition init :: scheduler where
  "init = \<lparr>dag = Map.empty, dag_next_id = 0, rt_info = Map.empty, dispatcher_queue = [],
     num_nodes_yet_to_finish = 0, target = - 1, dm_tasks = [], next_data_id = 0,
     current_device_id = 0, trace = []\<rparr>"

definition Lock :: "nat list \<Rightarrow> scheduler \<Rightarrow> scheduler" where
  "Lock ns s = emit (ALock ns) s"

definition Unlock :: "scheduler \<Rightarrow> scheduler" where
  "Unlock s = emit AUnlock s"

definition FreeDataNodeRes :: "PhysicalData \<Rightarrow> scheduler \<Rightarrow> scheduler" where
  "FreeDataNodeRes d s = FreeData (data_id d) s"

definition OnCreateNode :: "nat \<Rightarrow> scheduler \<Rightarrow> scheduler" where
  "OnCreateNode i s = AddNode i s"

definition OnDeleteNode :: "nat \<Rightarrow> scheduler \<Rightarrow> scheduler" where
  "OnDeleteNode i s = RemoveNode i s"

definition OnCreateEdge :: "nat \<Rightarrow> nat \<Rightarrow> scheduler \<Rightarrow> error + scheduler" where
  "OnCreateEdge from to s =
     bind_err (GetState to s) (\<lambda>st.
       if st \<noteq> kReady then Inl (Check 135)
       else bind_err (At from s) (\<lambda>fi.
         let s1 = emit (AIncRef from)
                    (set_info from (fi\<lparr>reference_count := reference_count fi + 1\<rparr>) s)
         in bind_err (GetState from s1) (\<lambda>fs.
              if fs \<noteq> kCompleted
              then bind_err (At to s1) (\<lambda>ti.
                     Inr (emit (AIncTriggers to)
                       (set_info to (ti\<lparr>num_triggers_needed := num_triggers_needed ti + 1\<rparr>) s1)))
              else Inr s1)))"

definition QueuePush :: "TaskType \<Rightarrow> nat \<Rightarrow> scheduler \<Rightarrow> scheduler" where
  "QueuePush ty i s =
     emit (AQueuePush ty i) (s\<lparr>dispatcher_queue := dispatcher_queue s @ [(ty, i)]\<rparr>)"

definition IncYetToFinish :: "scheduler \<Rightarrow> scheduler" where
  "IncYetToFinish s =
     emit AIncYetToFinish (s\<lparr>num_nodes_yet_to_finish := num_nodes_yet_to_finish s + 1\<rparr>)"

definition DecYetToFinish :: "scheduler \<Rightarrow> scheduler" where
  "DecYetToFinish s =
     emit ADecYetToFinish (s\<lparr>num_nodes_yet_to_finish := num_nodes_yet_to_finish s - 1\<rparr>)"

definition ProcessIfReady :: "nat \<Rightarrow> scheduler \<Rightarrow> error + scheduler" where
  "ProcessIfReady node_id s =
     bind_err (GetState node_id s) (\<lambda>st.
       if st \<noteq> kReady then Inl (Check 144)
       else bind_err (At node_id s) (\<lambda>ri.
         if num_triggers_needed ri = 0
         then Inr (QueuePush kToRun node_id (IncYetToFinish s))
         else Inr s))"

subsection \<open>Create\<close>

text \<open>
  The first \<^verbatim>\<open>Map\<close> of \<^verbatim>\<open>Create\<close>: one data node per result size, each with a
  value id from \<^verbatim>\<open>GenerateDataId\<close>. The constructor of \<^verbatim>\<open>PhysicalData\<close> is not
  in the sources at hand; the external reference count of a new node is 0 here and is
  changed by the frontend only.
\<close>

fun NewResultNodes :: "nat list list \<Rightarrow> nat \<Rightarrow> scheduler \<Rightarrow> nat list \<times> scheduler" where
  "NewResultNodes [] dev s = ([], s)"
| "NewResultNodes (sz # szs) dev s =
     (let (v, s1) = GenerateDataId s;
          (n, s2) = NewDataNode \<lparr>data_size = sz, device_id = dev, data_id = v, extern_rc = 0\<rparr> s1;
          (ns, s3) = NewResultNodes szs dev s2
      in (n # ns, s3))"

definition chunk_node :: "BackendChunk \<Rightarrow> error + nat" where
  "chunk_node c = (case c of DagChunk n \<Rightarrow> Inr n | ForeignChunk \<Rightarrow> Inl (Check 35))"

definition set_op_device :: "nat \<Rightarrow> nat \<Rightarrow> scheduler \<Rightarrow> scheduler" where
  "set_op_device i dev s =
     (case dag s i of
        Some nd \<Rightarrow>
          (case body nd of
             OpBody p ins outs \<Rightarrow>
               s\<lparr>dag := (dag s)(i \<mapsto> nd\<lparr>body := OpBody (p\<lparr>op_device_id := dev\<rparr>) ins outs\<rparr>)\<rparr>
           | DataBody d \<Rightarrow> s)
      | None \<Rightarrow> s)"

definition Create ::
  "BackendChunk list \<Rightarrow> nat list list \<Rightarrow> nat \<Rightarrow> scheduler \<Rightarrow> error + (BackendChunk list \<times> scheduler)" where
  "Create params result_sizes fn s =
     (let dev = current_device_id s;
          (rst_data_nodes, s1) = NewResultNodes result_sizes dev s;
          s2 = fold OnCreateNode rst_data_nodes s1
      in bind_err (MapE params chunk_node) (\<lambda>param_data_nodes.
           let ret = map DagChunk rst_data_nodes;
               s3 = Lock param_data_nodes s2;
               (op_node, s4) = NewOpNode param_data_nodes rst_data_nodes
                                 \<lparr>compute_fn = fn, op_device_id = 0\<rparr> s3;
               s5 = set_op_device op_node dev s4;
               s6 = OnCreateNode op_node s5
           in bind_err (Iter param_data_nodes (\<lambda>n. OnCreateEdge n op_node) s6) (\<lambda>s7.
              bind_err (Iter rst_data_nodes (\<lambda>n. OnCreateEdge op_node n) s7) (\<lambda>s8.
              bind_err (ProcessIfReady op_node s8) (\<lambda>s9.
                Inr (ret, Unlock s9))))))"

subsection \<open>WaitForAll\<close>

text \<open>
  The loop \<^verbatim>\<open>while (num_nodes_yet_to_finish_) finish_cond_.wait(lck)\<close> reads the
  counter once on entry and once after every wake-up. The values it will read after the
  wake-ups are the list \<open>obs\<close>; the loop returns the number of waits it made, or is
  still blocked when the list is used up.
\<close>

datatype wait_result = Returned nat | Blocked

fun wait_loop :: "int list \<Rightarrow> nat \<Rightarrow> wait_result" where
  "wait_loop [] k = Blocked"
| "wait_loop (v # vs) k = (if v \<noteq> 0 then wait_loop vs (k + 1) else Returned k)"

definition WaitForAll :: "scheduler \<Rightarrow> int list \<Rightarrow> error + wait_result" where
  "WaitForAll s obs =
     (if target s \<noteq> - 1 then Inl (Check 71)
      else Inr (wait_loop (num_nodes_yet_to_finish s # obs) 0))"

subsection \<open>GetValue\<close>




subsection \<open>Device listener and external reference counts\<close>

definition OnOperationComplete :: "Task \<Rightarrow> scheduler \<Rightarrow> scheduler" where
  "OnOperationComplete task s = QueuePush kToComplete (task_id task) s"

definition OnExternRCUpdate :: "nat \<Rightarrow> scheduler \<Rightarrow> error + scheduler" where
  "OnExternRCUpdate node s =
     (let s0 = Lock [node] s
      in bind_err (GetState node s0) (\<lambda>st.
           case st of
             kCompleted \<Rightarrow>
               bind_err (At node s0) (\<lambda>ri.
               bind_err (data_node 93 node s0) (\<lambda>d.
                 if reference_count ri = 0 \<and> extern_rc d = 0
                 then bind_err (RemoveNodeFromDag node (FreeDataNodeRes d s0)) (\<lambda>s1.
                        Inr (emit (ADelete node) (Unlock (OnDeleteNode node s1))))
                 else Inr (Unlock s0)))
           | kReady \<Rightarrow> Inr (Unlock s0)
           | kOther \<Rightarrow> Inl (Check 115)))"

subsection \<open>The dispatcher\<close>

definition task_data :: "nat \<Rightarrow> nat \<Rightarrow> scheduler \<Rightarrow> error + (PhysicalData \<times> nat)" where
  "task_data l i s = bind_err (data_node l i s) (\<lambda>d. Inr (d, i))"

text \<open>The body of the loop over the predecessors of a completed op node.\<close>

definition release_pred :: "nat \<Rightarrow> nat list \<times> scheduler \<Rightarrow> error + nat list \<times> scheduler" where
  "release_pred pred ts =
     (let (to_delete, s) = ts
      in bind_err (At pred s) (\<lambda>pred_ri.
         bind_err (data_node 187 pred s) (\<lambda>d.
           if num_triggers_needed pred_ri \<noteq> 0 then Inl (Check 189)
           else
             let rc = reference_count pred_ri - 1;
                 s1 = emit (ADecRef pred) (set_info pred (pred_ri\<lparr>reference_count := rc\<rparr>) s)
             in if rc = 0 \<and> extern_rc d = 0
                then bind_err (RemoveNodeFromDag pred (FreeDataNodeRes d s1)) (\<lambda>s2.
                       Inr (to_delete @ [pred], OnDeleteNode pred s2))
                else Inr (to_delete, s1))))"

definition CompleteOp :: "DagNode \<Rightarrow> RuntimeInfo \<Rightarrow> scheduler \<Rightarrow> error + nat list \<times> scheduler" where
  "CompleteOp node ri s =
     (if reference_count ri = 0 then Inl (Check 184)
      else Iter (predecessors node) release_pred ([], s))"

definition CompleteData ::
  "nat \<Rightarrow> DagNode \<Rightarrow> RuntimeInfo \<Rightarrow> scheduler \<Rightarrow> error + nat list \<times> scheduler" where
  "CompleteData node_id node ri s =
     bind_err (case body node of DataBody d \<Rightarrow> Inr d
               | OpBody p ins outs \<Rightarrow> Inl (Check 198)) (\<lambda>d.
     bind_err (if reference_count ri = 0 \<and> extern_rc d = 0
               then bind_err (RemoveNodeFromDag node_id (FreeDataNodeRes d s)) (\<lambda>s1.
                      Inr ([node_id], OnDeleteNode node_id s1))
               else Inr ([], s)) (\<lambda>(to_delete, s2).
       if length (predecessors node) \<noteq> 1 then Inl (Check 206)
       else
         let pred_node = hd (predecessors node)
         in bind_err (At pred_node s2) (\<lambda>pred_ri.
              if num_triggers_needed pred_ri \<noteq> 0 then Inl (Check 209)
              else
                let rc = reference_count pred_ri - 1;
                    s3 = emit (ADecRef pred_node)
                           (set_info pred_node (pred_ri\<lparr>reference_count := rc\<rparr>) s2)
                in if rc = 0
                   then bind_err (RemoveNodeFromDag pred_node s3) (\<lambda>s4.
                          Inr (to_delete @ [pred_node], OnDeleteNode pred_node s4))
                   else Inr (to_delete, s3))))"

text \<open>The body of the loop over the successors of a completed node.\<close>

definition TriggerSucc :: "nat \<Rightarrow> scheduler \<Rightarrow> error + scheduler" where
  "TriggerSucc succ s =
     bind_err (At succ s) (\<lambda>ri0.
       let ri = ri0\<lparr>num_triggers_needed := num_triggers_needed ri0 - 1\<rparr>;
           s1 = emit (ADecTriggers succ) (set_info succ ri s)
       in if state ri = kReady \<and> num_triggers_needed ri = 0
          then Inr (QueuePush kToRun succ (IncYetToFinish s1))
          else Inr s1)"

definition NotifyIfDone :: "nat \<Rightarrow> scheduler \<Rightarrow> scheduler" where
  "NotifyIfDone node_id s =
     (if num_nodes_yet_to_finish s = 0 \<or> int node_id = target s then emit ANotifyAll s else s)"

definition DeleteAll :: "nat list \<Rightarrow> scheduler \<Rightarrow> scheduler" where
  "DeleteAll to_delete s = fold (\<lambda>n. emit (ADelete n)) to_delete s"

text \<open>
  One pass through the body of the loop of \<^verbatim>\<open>DispatcherRoutine\<close>, for the event
  that \<^verbatim>\<open>Pop\<close> delivered. The node is fetched once; the loops over its
  predecessors and successors visit the members the sets had when the node was fetched.
\<close>

definition DispatcherBody :: "TaskType \<times> nat \<Rightarrow> scheduler \<Rightarrow> error + scheduler" where
  "DispatcherBody task s =
     (let (ty, node_id) = task
      in bind_err (GetNode node_id s) (\<lambda>node.
         let s0 = Lock [node_id] s
         in bind_err (At node_id s0) (\<lambda>ri.
              if ty = kToRun \<and> Type node = kOpNode
              then (case body node of
                      DataBody d \<Rightarrow> Inl (Check 163)
                    | OpBody p ins outs \<Rightarrow>
                        bind_err (MapE ins (\<lambda>i. task_data 167 i s0)) (\<lambda>tin.
                        bind_err (MapE outs (\<lambda>i. task_data 170 i s0)) (\<lambda>tout.
                          Inr (Unlock (PushTask (op_device_id p)
                                 \<lparr>task_inputs = tin, task_outputs = tout, task_op = p,
                                  task_id = node_id\<rparr> s0)))))
              else if ty = kToComplete \<or> (ty = kToRun \<and> Type node = kDataNode)
              then
                let ri1 = ri\<lparr>state := kCompleted\<rparr>;
                    s1 = emit (ASetCompleted node_id) (set_info node_id ri1 s0)
                in bind_err (if Type node = kOpNode then CompleteOp node ri1 s1
                             else CompleteData node_id node ri1 s1) (\<lambda>(to_delete, s2).
                   bind_err (Iter (successors node) TriggerSucc s2) (\<lambda>s3.
                     Inr (DeleteAll to_delete
                            (Unlock (NotifyIfDone node_id (DecYetToFinish s3))))))
              else Inr (Unlock s0))))"

text \<open>
  The end of the dispatcher body for a completion event, from the decrement of
  \<^verbatim>\<open>num_nodes_yet_to_finish_\<close> to the deletion of the removed nodes, under a name.
\<close>

definition finish_body :: "nat \<Rightarrow> nat list \<Rightarrow> scheduler \<Rightarrow> scheduler" where
  "finish_body node_id to_delete s =
     DeleteAll to_delete (Unlock (NotifyIfDone node_id (DecYetToFinish s)))"

subsection \<open>The dispatcher loop and the environment\<close>

text \<open>
  \<^verbatim>\<open>DispatcherRoutine\<close> pops the queue and runs the body, here for at most \<open>k\<close> events;
  with an empty queue the thread is blocked in \<^verbatim>\<open>Pop\<close> and the state stays as it is.
\<close>

fun DispatcherRoutine :: "nat \<Rightarrow> scheduler \<Rightarrow> error + scheduler" where
  "DispatcherRoutine 0 s = Inr s"
| "DispatcherRoutine (Suc k) s =
     (case dispatcher_queue s of
        [] \<Rightarrow> Inr s
      | task # q \<Rightarrow>
          bind_err (DispatcherBody task (s\<lparr>dispatcher_queue := q\<rparr>)) (DispatcherRoutine k))"

text \<open>
  Modelled from the spec: a device reports a task it holds through
  \<^verbatim>\<open>OnOperationComplete\<close>, once; the frontend changes the external reference count
  of a data node through its handles.
\<close>

definition DeviceReports :: "scheduler \<Rightarrow> scheduler" where
  "DeviceReports s =
     (case dm_tasks s of [] \<Rightarrow> s | t # ts \<Rightarrow> OnOperationComplete t (s\<lparr>dm_tasks := ts\<rparr>))"

definition SetExternRC :: "nat \<Rightarrow> int \<Rightarrow> scheduler \<Rightarrow> scheduler" where
  "SetExternRC n v s =
     (case dag s n of
        Some nd \<Rightarrow>
          (case body nd of
             DataBody d \<Rightarrow> s\<lparr>dag := (dag s)(n \<mapsto> nd\<lparr>body := DataBody (d\<lparr>extern_rc := v\<rparr>)\<rparr>)\<rparr>
           | OpBody p ins outs \<Rightarrow> s)
      | None \<Rightarrow> s)"

section \<open>Example runs\<close>

text \<open>
  The states of a small run, written out. \<open>created\<close>: one op without inputs and with
  one result of shape \<open>(4)\<close> has been submitted to the initial scheduler; the data node is
  0, the op node is 1. \<open>op_done\<close>: the dispatcher has pushed the task of op 1, the device
  has reported it and the dispatcher has processed the completion; the event
  \<open>(kToRun, 0)\<close> is queued. \<open>pinned_done\<close>: a frontend handle pins data node 0 while the
  dispatcher completes it.
\<close>

definition D0 :: PhysicalData where
  "D0 = \<lparr>data_size = [4], device_id = 0, data_id = 0, extern_rc = 0\<rparr>"

definition D1 :: PhysicalData where
  "D1 = \<lparr>data_size = [4], device_id = 0, data_id = 1, extern_rc = 0\<rparr>"

definition N1 :: DagNode where
  "N1 = \<lparr>predecessors = [], successors = [0],
         body = OpBody \<lparr>compute_fn = 7, op_device_id = 0\<rparr> [] [0]\<rparr>"

definition T1 :: Task where
  "T1 = \<lparr>task_inputs = [], task_outputs = [(D0, 0)],
         task_op = \<lparr>compute_fn = 7, op_device_id = 0\<rparr>, task_id = 1\<rparr>"

definition created :: scheduler where
  "created =
     \<lparr>dag = [0 \<mapsto> \<lparr>predecessors = [1], successors = [], body = DataBody D0\<rparr>, 1 \<mapsto> N1],
      dag_next_id = 2,
      rt_info = [0 \<mapsto> \<lparr>num_triggers_needed = 1, reference_count = 0, state = kReady\<rparr>,
                 1 \<mapsto> \<lparr>num_triggers_needed = 0, reference_count = 1, state = kReady\<rparr>],
      dispatcher_queue = [(kToRun, 1)], num_nodes_yet_to_finish = 1, target = - 1,
      dm_tasks = [], next_data_id = 1, current_device_id = 0,
      trace = [ANewDataNode 0, AAddNode 0, ALock [], ANewOpNode 1, AAddNode 1, AIncRef 1,
               AIncTriggers 0, AIncYetToFinish, AQueuePush kToRun 1, AUnlock]\<rparr>"

definition op_done :: scheduler where
  "op_done =
     \<lparr>dag = [0 \<mapsto> \<lparr>predecessors = [1], successors = [], body = DataBody D0\<rparr>, 1 \<mapsto> N1],
      dag_next_id = 2,
      rt_info = [0 \<mapsto> \<lparr>num_triggers_needed = 0, reference_count = 0, state = kReady\<rparr>,
                 1 \<mapsto> \<lparr>num_triggers_needed = 0, reference_count = 1, state = kCompleted\<rparr>],
      dispatcher_queue = [(kToRun, 0)], num_nodes_yet_to_finish = 1, target = - 1,
      dm_tasks = [], next_data_id = 1, current_device_id = 0,
      trace = trace created @
              [ALock [1], APushTask 0 T1, AUnlock, AQueuePush kToComplete 1,
               ALock [1], ASetCompleted 1, ADecTriggers 0, AIncYetToFinish,
               AQueuePush kToRun 0, ADecYetToFinish, AUnlock]\<rparr>"

definition pinned_done :: scheduler where
  "pinned_done =
     \<lparr>dag = [0 \<mapsto> \<lparr>predecessors = [], successors = [],
                    body = DataBody (D0\<lparr>extern_rc := 1\<rparr>)\<rparr>],
      dag_next_id = 2,
      rt_info = [0 \<mapsto> \<lparr>num_triggers_needed = 0, reference_count = 0, state = kCompleted\<rparr>],
      dispatcher_queue = [], num_nodes_yet_to_finish = 0, target = - 1,
      dm_tasks = [], next_data_id = 1, current_device_id = 0,
      trace = trace op_done @
              [ALock [0], ASetCompleted 0, ADecRef 1, ARemoveNodeFromDag 1, ARemoveNode 1,
               ADecYetToFinish, ANotifyAll, AUnlock, ADelete 1]\<rparr>"

text \<open>
  \<open>unreferenced\<close>: one op without inputs and without results has been submitted to the
  initial scheduler; it is node 0. \<open>unreferenced_reported\<close>: its task has been pushed and
  reported by the device.
\<close>

definition unreferenced :: scheduler where
  "unreferenced =
     \<lparr>dag = [0 \<mapsto> \<lparr>predecessors = [], successors = [],
                    body = OpBody \<lparr>compute_fn = 7, op_device_id = 0\<rparr> [] []\<rparr>],
      dag_next_id = 1,
      rt_info = [0 \<mapsto> \<lparr>num_triggers_needed = 0, reference_count = 0, state = kReady\<rparr>],
      dispatcher_queue = [(kToRun, 0)], num_nodes_yet_to_finish = 1, target = - 1,
      dm_tasks = [], next_data_id = 0, current_device_id = 0,
      trace = [ALock [], ANewOpNode 0, AAddNode 0, AIncYetToFinish, AQueuePush kToRun 0,
               AUnlock]\<rparr>"

definition unreferenced_reported :: scheduler where
  "unreferenced_reported =
     unreferenced
       \<lparr>dispatcher_queue := [(kToComplete, 0)],
        trace := trace unreferenced @
          [ALock [0],
           APushTask 0 \<lparr>task_inputs = [], task_outputs = [],
                         task_op = \<lparr>compute_fn = 7, op_device_id = 0\<rparr>, task_id = 0\<rparr>,
           AUnlock, AQueuePush kToComplete 0]\<rparr>"

text \<open>
  \<open>all_reclaimed\<close>: from \<open>op_done\<close>, without any frontend handle, the dispatcher has
  completed data node 0. \<open>replayed\<close>: from \<open>op_done\<close>, the dispatcher has processed a second
  completion event for op 1.
\<close>

definition all_reclaimed :: scheduler where
  "all_reclaimed =
     \<lparr>dag = Map.empty, dag_next_id = 2, rt_info = Map.empty,
      dispatcher_queue = [], num_nodes_yet_to_finish = 0, target = - 1,
      dm_tasks = [], next_data_id = 1, current_device_id = 0,
      trace = trace op_done @
              [ALock [0], ASetCompleted 0, AFreeData 0, ARemoveNodeFromDag 0, ARemoveNode 0,
               ADecRef 1, ARemoveNodeFromDag 1, ARemoveNode 1,
               ADecYetToFinish, ANotifyAll, AUnlock, ADelete 0, ADelete 1]\<rparr>"

definition replayed :: scheduler where
  "replayed =
     op_done
       \<lparr>rt_info := [0 \<mapsto> \<lparr>num_triggers_needed = - 1, reference_count = 0, state = kReady\<rparr>,
                    1 \<mapsto> \<lparr>num_triggers_needed = 0, reference_count = 1, state = kCompleted\<rparr>],
        num_nodes_yet_to_finish := 0,
        trace := trace op_done @
                 [ALock [1], ASetCompleted 1, ADecTriggers 0, ADecYetToFinish, ANotifyAll,
                  AUnlock]\<rparr>"

text \<open>
  \<open>chained\<close>: from \<open>pinned_done\<close>, a second op with input data node 0 and one result has
  been submitted; the new data node is 2, the new op node is 3. \<open>chain_reported\<close>: the
  task of op 3 has been pushed and reported, and the frontend has dropped its handle of
  data node 0. \<open>chain_completed\<close>: the dispatcher has processed the completion of op 3.
\<close>

definition N2 :: DagNode where
  "N2 = \<lparr>predecessors = [3], successors = [], body = DataBody D1\<rparr>"

definition N3 :: DagNode where
  "N3 = \<lparr>predecessors = [0], successors = [2],
         body = OpBody \<lparr>compute_fn = 8, op_device_id = 0\<rparr> [0] [2]\<rparr>"

definition T3 :: Task where
  "T3 = \<lparr>task_inputs = [(D0\<lparr>extern_rc := 1\<rparr>, 0)], task_outputs = [(D1, 2)],
         task_op = \<lparr>compute_fn = 8, op_device_id = 0\<rparr>, task_id = 3\<rparr>"

definition chained :: scheduler where
  "chained =
     \<lparr>dag = [0 \<mapsto> \<lparr>predecessors = [], successors = [3],
                    body = DataBody (D0\<lparr>extern_rc := 1\<rparr>)\<rparr>,
             2 \<mapsto> N2, 3 \<mapsto> N3],
      dag_next_id = 4,
      rt_info = [0 \<mapsto> \<lparr>num_triggers_needed = 0, reference_count = 1, state = kCompleted\<rparr>,
                 2 \<mapsto> \<lparr>num_triggers_needed = 1, reference_count = 0, state = kReady\<rparr>,
                 3 \<mapsto> \<lparr>num_triggers_needed = 0, reference_count = 1, state = kReady\<rparr>],
      dispatcher_queue = [(kToRun, 3)], num_nodes_yet_to_finish = 1, target = - 1,
      dm_tasks = [], next_data_id = 2, current_device_id = 0,
      trace = trace pinned_done @
              [ANewDataNode 2, AAddNode 2, ALock [0], ANewOpNode 3, AAddNode 3, AIncRef 0,
               AIncRef 3, AIncTriggers 2, AIncYetToFinish, AQueuePush kToRun 3, AUnlock]\<rparr>"

definition chain_reported :: scheduler where
  "chain_reported =
     chained
       \<lparr>dag := [0 \<mapsto> \<lparr>predecessors = [], successors = [3], body = DataBody D0\<rparr>,
                2 \<mapsto> N2, 3 \<mapsto> N3],
        dispatcher_queue := [(kToComplete, 3)],
        trace := trace chained @ [ALock [3], APushTask 0 T3, AUnlock, AQueuePush kToComplete 3]\<rparr>"

definition chain_completed :: scheduler where
  "chain_completed =
     \<lparr>dag = [2 \<mapsto> N2, 3 \<mapsto> N3\<lparr>predecessors := []\<rparr>],
      dag_next_id = 4,
      rt_info = [2 \<mapsto> \<lparr>num_triggers_needed = 0, reference_count = 0, state = kReady\<rparr>,
                 3 \<mapsto> \<lparr>num_triggers_needed = 0, reference_count = 1, state = kCompleted\<rparr>],
      dispatcher_queue = [(kToRun, 2)], num_nodes_yet_to_finish = 1, target = - 1,
      dm_tasks = [], next_data_id = 2, current_device_id = 0,
      trace = trace chain_reported @
              [ALock [3], ASetCompleted 3, ADecRef 0, AFreeData 0, ARemoveNodeFromDag 0,
               ARemoveNode 0, ADecTriggers 2, AIncYetToFinish, AQueuePush kToRun 2,
               ADecYetToFinish, AUnlock, ADelete 0]\<rparr>"

text \<open>
  \<open>dup_created\<close>: from \<open>op_done\<close>, a second op has been submitted that takes data node 0
  twice as its input; the new data node is 2, the new op node is 3. \<open>dup_stuck\<close>: the
  dispatcher has completed data node 0.
\<close>

definition N3' :: DagNode where
  "N3' = \<lparr>predecessors = [0], successors = [2],
          body = OpBody \<lparr>compute_fn = 8, op_device_id = 0\<rparr> [0, 0] [2]\<rparr>"

definition dup_created :: scheduler where
  "dup_created =
     \<lparr>dag = [0 \<mapsto> \<lparr>predecessors = [1], successors = [3], body = DataBody D0\<rparr>,
             1 \<mapsto> N1, 2 \<mapsto> N2, 3 \<mapsto> N3'],
      dag_next_id = 4,
      rt_info = [0 \<mapsto> \<lparr>num_triggers_needed = 0, reference_count = 2, state = kReady\<rparr>,
                 1 \<mapsto> \<lparr>num_triggers_needed = 0, reference_count = 1, state = kCompleted\<rparr>,
                 2 \<mapsto> \<lparr>num_triggers_needed = 1, reference_count = 0, state = kReady\<rparr>,
                 3 \<mapsto> \<lparr>num_triggers_needed = 2, reference_count = 1, state = kReady\<rparr>],
      dispatcher_queue = [(kToRun, 0)], num_nodes_yet_to_finish = 1, target = - 1,
      dm_tasks = [], next_data_id = 2, current_device_id = 0,
      trace = trace op_done @
              [ANewDataNode 2, AAddNode 2, ALock [0, 0], ANewOpNode 3, AAddNode 3,
               AIncRef 0, AIncTriggers 3, AIncRef 0, AIncTriggers 3, AIncRef 3, AIncTriggers 2,
               AUnlock]\<rparr>"

definition dup_stuck :: scheduler where
  "dup_stuck =
     \<lparr>dag = [0 \<mapsto> \<lparr>predecessors = [], successors = [3], body = DataBody D0\<rparr>,
             2 \<mapsto> N2, 3 \<mapsto> N3'],
      dag_next_id = 4,
      rt_info = [0 \<mapsto> \<lparr>num_triggers_needed = 0, reference_count = 2, state = kCompleted\<rparr>,
                 2 \<mapsto> \<lparr>num_triggers_needed = 1, reference_count = 0, state = kReady\<rparr>,
                 3 \<mapsto> \<lparr>num_triggers_needed = 1, reference_count = 1, state = kReady\<rparr>],
      dispatcher_queue = [], num_nodes_yet_to_finish = 0, target = - 1,
      dm_tasks = [], next_data_id = 2, current_device_id = 0,
      trace = trace dup_created @
              [ALock [0], ASetCompleted 0, ADecRef 1, ARemoveNodeFromDag 1, ARemoveNode 1,
               ADecTriggers 3, ADecYetToFinish, ANotifyAll, AUnlock, ADelete 1]\<rparr>"

text \<open>
  \<open>sink\<close>: from \<open>pinned_done\<close>, where data node 0 is \<open>kCompleted\<close> and held by a
  frontend handle, an op that reads data node 0 and has no result has been submitted; it
  is node 2. \<open>sink_pushed\<close>: the dispatcher has pushed its task. \<open>sink_reported\<close>: the
  device has reported the task complete.
\<close>

definition Nsink :: DagNode where
  "Nsink = \<lparr>predecessors = [0], successors = [],
            body = OpBody \<lparr>compute_fn = 8, op_device_id = 0\<rparr> [0] []\<rparr>"

definition Tsink :: Task where
  "Tsink = \<lparr>task_inputs = [(D0\<lparr>extern_rc := 1\<rparr>, 0)], task_outputs = [],
            task_op = \<lparr>compute_fn = 8, op_device_id = 0\<rparr>, task_id = 2\<rparr>"

definition sink :: scheduler where
  "sink =
     \<lparr>dag = [0 \<mapsto> \<lparr>predecessors = [], successors = [2],
                    body = DataBody (D0\<lparr>extern_rc := 1\<rparr>)\<rparr>,
             2 \<mapsto> Nsink],
      dag_next_id = 3,
      rt_info = [0 \<mapsto> \<lparr>num_triggers_needed = 0, reference_count = 1, state = kCompleted\<rparr>,
                 2 \<mapsto> \<lparr>num_triggers_needed = 0, reference_count = 0, state = kReady\<rparr>],
      dispatcher_queue = [(kToRun, 2)], num_nodes_yet_to_finish = 1, target = - 1,
      dm_tasks = [], next_data_id = 1, current_device_id = 0,
      trace = trace pinned_done @
              [ALock [0], ANewOpNode 2, AAddNode 2, AIncRef 0, AIncYetToFinish,
               AQueuePush kToRun 2, AUnlock]\<rparr>"

definition sink_pushed :: scheduler where
  "sink_pushed =
     sink\<lparr>dispatcher_queue := [], dm_tasks := [Tsink],
          trace := trace sink @ [ALock [2], APushTask 0 Tsink, AUnlock]\<rparr>"

definition sink_reported :: scheduler where
  "sink_reported =
     sink_pushed\<lparr>dispatcher_queue := [(kToComplete, 2)], dm_tasks := [],
                 trace := trace sink_pushed @ [AQueuePush kToComplete 2]\<rparr>"

section \<open>Notions used in the statements\<close>



fun freed :: "action list \<Rightarrow> nat list" where
  "freed [] = []"
| "freed (AFreeData v # tr) = v # freed tr"
| "freed (a # tr) = freed tr"

fun pushed :: "action list \<Rightarrow> nat list" where
  "pushed [] = []"
| "pushed (APushTask dev t # tr) = task_id t # pushed tr"
| "pushed (a # tr) = pushed tr"

section \<open>The scheduler and its environment as a transition system\<close>

text \<open>
  Each call of the scheduler is one transition: the node locks make the calls atomic
  with respect to the nodes they touch. The frontend calls \<open>Create\<close> and
  \<open>OnExternRCUpdate\<close> and changes external reference counts, the current device and,
  through \<^verbatim>\<open>Wait\<close>, the target; the dispatcher thread pops an event and runs its body;
  a device reports a task that it holds, once.
\<close>

inductive step :: "scheduler \<Rightarrow> scheduler \<Rightarrow> bool" where
  create: "Create params result_sizes fn s = Inr (ret, s') \<Longrightarrow> step s s'"
| dispatch: "dispatcher_queue s = task # q \<Longrightarrow>
     DispatcherBody task (s\<lparr>dispatcher_queue := q\<rparr>) = Inr s' \<Longrightarrow> step s s'"
| report: "dm_tasks s = ts @ t # ts' \<Longrightarrow>
     step s (OnOperationComplete t (s\<lparr>dm_tasks := ts @ ts'\<rparr>))"
| extern_rc: "step s (SetExternRC n v s)"
| extern_update: "OnExternRCUpdate n s = Inr s' \<Longrightarrow> step s s'"
| device: "step s (s\<lparr>current_device_id := d\<rparr>)"
| waiting: "step s (s\<lparr>target := t\<rparr>)"

inductive reachable :: "scheduler \<Rightarrow> bool" where
  reach_init: "reachable init"
| reach_step: "reachable s \<Longrightarrow> step s s' \<Longrightarrow> reachable s'"

text \<open>
  \<open>armed s\<close> lists the nodes whose task has been pushed to a device, followed by the
  nodes that have a \<open>kToRun\<close> event in the queue.
\<close>

definition to_run :: "(TaskType \<times> nat) list \<Rightarrow> nat list" where
  "to_run q = map snd (filter (\<lambda>e. fst e = kToRun) q)"

definition armed :: "scheduler \<Rightarrow> nat list" where
  "armed s = pushed (trace s) @ to_run (dispatcher_queue s)"

definition once_inv :: "scheduler \<Rightarrow> bool" where
  "once_inv s \<longleftrightarrow>
     distinct (armed s) \<and>
     (\<forall>i \<in> set (armed s). i < dag_next_id s) \<and>
     (\<forall>i ri. rt_info s i = Some ri \<longrightarrow>
        i < dag_next_id s \<and>
        (i \<in> set (armed s) \<longrightarrow> state ri = kReady \<longrightarrow> num_triggers_needed ri \<le> 0))"

text \<open>
  \<open>created_frame k n s t\<close> relates the state \<open>s\<close> in which \<open>Create\<close> is called to a
  state \<open>t\<close> inside the call: the queue, the tasks with the devices and the pushed
  tasks are those of \<open>s\<close>, the ids
  run up to \<open>n\<close>, and the nodes below \<open>k\<close>, which existed in \<open>s\<close>, have the state
  and the trigger count they had.
\<close>

definition created_frame :: "nat \<Rightarrow> nat \<Rightarrow> scheduler \<Rightarrow> scheduler \<Rightarrow> bool" where
  "created_frame k n s t \<longleftrightarrow>
     dispatcher_queue t = dispatcher_queue s \<and> pushed (trace t) = pushed (trace s) \<and>
     dm_tasks t = dm_tasks s \<and> dag_next_id t = n \<and>
     (\<forall>i ri. rt_info t i = Some ri \<longrightarrow> i < n) \<and>
     (\<forall>i. i < k \<longrightarrow>
        map_option state (rt_info t i) = map_option state (rt_info s i) \<and>
        map_option num_triggers_needed (rt_info t i) =
          map_option num_triggers_needed (rt_info s i))"

text \<open>
  The edge sets of a node of the DAG; a node that is not in the DAG has none.
\<close>

definition preds_of :: "(nat \<rightharpoonup> DagNode) \<Rightarrow> nat \<Rightarrow> nat list" where
  "preds_of g i = (case g i of None \<Rightarrow> [] | Some nd \<Rightarrow> predecessors nd)"

definition succs_of :: "(nat \<rightharpoonup> DagNode) \<Rightarrow> nat \<Rightarrow> nat list" where
  "succs_of g i = (case g i of None \<Rightarrow> [] | Some nd \<Rightarrow> successors nd)"

text \<open>
  \<open>in_flight s\<close> lists the nodes whose task a device holds, followed by the nodes that
  have a \<open>kToComplete\<close> event in the queue. A node is \<open>waiting\<close> while it has runtime
  information and is not \<open>kCompleted\<close>.
\<close>

definition to_complete :: "(TaskType \<times> nat) list \<Rightarrow> nat list" where
  "to_complete q = map snd (filter (\<lambda>e. fst e = kToComplete) q)"

definition in_flight :: "scheduler \<Rightarrow> nat list" where
  "in_flight s = map task_id (dm_tasks s) @ to_complete (dispatcher_queue s)"

definition waiting :: "scheduler \<Rightarrow> nat \<Rightarrow> bool" where
  "waiting s p = (case rt_info s p of None \<Rightarrow> False | Some ri \<Rightarrow> state ri \<noteq> kCompleted)"

text \<open>
  \<open>flight_inv\<close>: every task that is with a device or reported in the queue has been
  pushed, no node is there twice, and the nodes with a pending event are \<open>kReady\<close>.
\<close>

definition flight_inv :: "scheduler \<Rightarrow> bool" where
  "flight_inv s \<longleftrightarrow>
     distinct (in_flight s) \<and> set (in_flight s) \<subseteq> set (pushed (trace s)) \<and>
     (\<forall>c ri. c \<in> set (to_run (dispatcher_queue s)) \<union> set (in_flight s) \<longrightarrow>
        rt_info s c = Some ri \<longrightarrow> state ri = kReady)"

text \<open>
  \<open>dag_inv\<close>: the DAG and the runtime information have the same nodes, and the
  predecessor and successor sets mirror each other.
\<close>

definition edges_ok :: "(nat \<rightharpoonup> DagNode) \<Rightarrow> bool" where
  "edges_ok g \<longleftrightarrow>
     (\<forall>i. distinct (succs_of g i)) \<and>
     (\<forall>i n. n \<in> set (succs_of g i) \<longrightarrow> i \<in> set (preds_of g n)) \<and>
     (\<forall>i p. p \<in> set (preds_of g i) \<longrightarrow> i \<in> set (succs_of g p))"

definition dag_inv :: "scheduler \<Rightarrow> bool" where
  "dag_inv s \<longleftrightarrow> (\<forall>i. dag s i = None \<longleftrightarrow> rt_info s i = None) \<and> edges_ok (dag s)"

text \<open>
  \<open>triggers_of s n\<close> is the trigger count of node \<open>n\<close>.
  \<open>counted S s\<close>: the trigger count of a node is at least the number of its waiting
  predecessors, plus one for a node in \<open>S\<close>. \<open>S\<close> holds the successors of a node that
  has just completed and that the dispatcher has not yet triggered.
\<close>

definition triggers_of :: "scheduler \<Rightarrow> nat \<Rightarrow> int" where
  "triggers_of s n = (case rt_info s n of None \<Rightarrow> 0 | Some ri \<Rightarrow> num_triggers_needed ri)"

definition counted :: "nat set \<Rightarrow> scheduler \<Rightarrow> bool" where
  "counted S s \<longleftrightarrow>
     (\<forall>n ri. rt_info s n = Some ri \<longrightarrow>
        int (length (filter (waiting s) (preds_of (dag s) n))) + (if n \<in> S then 1 else 0)
          \<le> num_triggers_needed ri)"

text \<open>
  \<open>gc s t\<close>: \<open>t\<close> comes from \<open>s\<close> by lowering reference counts, releasing storage and
  removing nodes; these are the steps by which the dispatcher and \<open>OnExternRCUpdate\<close>
  reclaim nodes.
\<close>

inductive gc :: "scheduler \<Rightarrow> scheduler \<Rightarrow> bool" where
  gc_refl: "gc s s"
| gc_ref: "gc s t \<Longrightarrow> rt_info t p = Some pri \<Longrightarrow>
     gc s (emit (ADecRef p) (set_info p (pri\<lparr>reference_count := v\<rparr>) t))"
| gc_free: "gc s t \<Longrightarrow> gc s (FreeDataNodeRes d t)"
| gc_remove: "gc s t \<Longrightarrow> RemoveNodeFromDag r t = Inr t1 \<Longrightarrow> gc s (OnDeleteNode r t1)"

definition sched_inv :: "scheduler \<Rightarrow> bool" where
  "sched_inv s \<longleftrightarrow> once_inv s \<and> flight_inv s \<and> dag_inv s \<and> counted {} s"

section \<open>Basic facts\<close>

lemma bind_err_simps [simp]:
  "bind_err (Inl e) f = Inl e"
  "bind_err (Inr x) f = f x"
  by (simp_all add: bind_err_def)

lemma bind_err_eq_Inr: "bind_err m f = Inr y \<longleftrightarrow> (\<exists>x. m = Inr x \<and> f x = Inr y)"
  by (cases m) simp_all

lemma freed_append [simp]: "freed (xs @ ys) = freed xs @ freed ys"
  by (induction xs rule: freed.induct) simp_all

lemma pushed_append [simp]: "pushed (xs @ ys) = pushed xs @ pushed ys"
  by (induction xs rule: pushed.induct) simp_all

section \<open>Facts about the DAG operations\<close>

lemma del_succ_None [simp]: "del_succ u v g q = None \<longleftrightarrow> g q = None"
  by (simp add: del_succ_def split: option.splits)

lemma del_pred_None [simp]: "del_pred u v g q = None \<longleftrightarrow> g q = None"
  by (simp add: del_pred_def split: option.splits)

lemma del_succ_body [simp]: "map_option body (del_succ u v g q) = map_option body (g q)"
  by (simp add: del_succ_def split: option.splits)

lemma del_pred_body [simp]: "map_option body (del_pred u v g q) = map_option body (g q)"
  by (simp add: del_pred_def split: option.splits)

lemma fold_del_succ_None [simp]: "fold (\<lambda>p. del_succ p i) ps g q = None \<longleftrightarrow> g q = None"
  by (induction ps arbitrary: g) simp_all

lemma fold_del_pred_None [simp]: "fold (\<lambda>p. del_pred p i) ps g q = None \<longleftrightarrow> g q = None"
  by (induction ps arbitrary: g) simp_all

lemma fold_del_succ_body [simp]:
  "map_option body (fold (\<lambda>p. del_succ p i) ps g q) = map_option body (g q)"
  by (induction ps arbitrary: g) simp_all

lemma fold_del_pred_body [simp]:
  "map_option body (fold (\<lambda>p. del_pred p i) ps g q) = map_option body (g q)"
  by (induction ps arbitrary: g) simp_all

lemma RemoveNodeFromDag_Inr:
  assumes "RemoveNodeFromDag i s = Inr s'"
  shows "dag s i \<noteq> None" and "dag s' i = None"
    and "q \<noteq> i \<Longrightarrow> (dag s' q = None \<longleftrightarrow> dag s q = None)"
    and "q \<noteq> i \<Longrightarrow> map_option body (dag s' q) = map_option body (dag s q)"
    and "rt_info s' = rt_info s" and "trace s' = trace s @ [ARemoveNodeFromDag i]"
    and "dispatcher_queue s' = dispatcher_queue s"
    and "num_nodes_yet_to_finish s' = num_nodes_yet_to_finish s"
    and "target s' = target s" and "dm_tasks s' = dm_tasks s"
    and "dag_next_id s' = dag_next_id s" and "next_data_id s' = next_data_id s"
    and "current_device_id s' = current_device_id s"
  using assms
  by (auto simp: RemoveNodeFromDag_def GetNode_def emit_def Let_def split: option.splits)

lemma RemoveNodeFromDag_ok:
  "dag s i = Some nd \<Longrightarrow> \<exists>s'. RemoveNodeFromDag i s = Inr s'"
  by (simp add: RemoveNodeFromDag_def GetNode_def Let_def)

section \<open>Facts about the example runs\<close>

lemmas create_defs = Create_def GenerateDataId_def NewDataNode_def NewOpNode_def
  OnCreateNode_def AddNode_def emit_def chunk_node_def Lock_def Unlock_def set_op_device_def
  OnCreateEdge_def GetState_def At_def set_info_def ProcessIfReady_def QueuePush_def
  IncYetToFinish_def add_edge_def add_succ_def add_pred_def insert_id_def Let_def

lemmas dispatch_defs = DispatcherBody_def GetNode_def Lock_def Unlock_def At_def Type_def
  task_data_def data_node_def PushTask_def emit_def set_info_def CompleteOp_def
  CompleteData_def release_pred_def TriggerSucc_def QueuePush_def IncYetToFinish_def
  DecYetToFinish_def NotifyIfDone_def DeleteAll_def RemoveNodeFromDag_def OnDeleteNode_def
  RemoveNode_def FreeDataNodeRes_def FreeData_def del_succ_def del_pred_def Let_def

lemmas example_defs = created_def op_done_def pinned_done_def D0_def D1_def N1_def T1_def
  all_reclaimed_def replayed_def N2_def N3_def T3_def chained_def chain_reported_def
  chain_completed_def N3'_def dup_created_def dup_stuck_def Nsink_def Tsink_def sink_def
  sink_pushed_def sink_reported_def

lemma DispatcherRoutine_one:
  "dispatcher_queue s = task # q \<Longrightarrow>
     DispatcherRoutine 1 s = DispatcherBody task (s\<lparr>dispatcher_queue := q\<rparr>)"
  by (cases "DispatcherBody task (s\<lparr>dispatcher_queue := q\<rparr>)") simp_all

lemma Create_created: "Create [] [[4]] 7 init = Inr ([DagChunk 0], created)"
  by (simp add: example_defs create_defs init_def fun_eq_iff)

lemma op_done_reached:
  "bind_err (DispatcherRoutine 1 created) (\<lambda>s. DispatcherRoutine 1 (DeviceReports s)) =
     Inr op_done"
  by (simp add: example_defs dispatch_defs DeviceReports_def OnOperationComplete_def
      fun_eq_iff)

lemma pinned_done_reached: "DispatcherRoutine 1 (SetExternRC 0 1 op_done) = Inr pinned_done"
  by (simp add: example_defs dispatch_defs SetExternRC_def fun_eq_iff)


lemma created_info_0:
  "rt_info created 0 = Some \<lparr>num_triggers_needed = 1, reference_count = 0, state = kReady\<rparr>"
  by (simp add: created_def)

lemma all_reclaimed_reached: "DispatcherRoutine 1 op_done = Inr all_reclaimed"
  by (simp add: example_defs dispatch_defs fun_eq_iff)

lemma replayed_reached: "DispatcherBody (kToComplete, 1) op_done = Inr replayed"
  by (simp add: example_defs dispatch_defs fun_eq_iff)

lemma chained_reached: "Create [DagChunk 0] [[4]] 8 pinned_done = Inr ([DagChunk 2], chained)"
  by (simp add: example_defs create_defs fun_eq_iff)

lemma chain_reported_reached:
  "bind_err (DispatcherRoutine 1 chained) (\<lambda>s. Inr (SetExternRC 0 0 (DeviceReports s))) =
     Inr chain_reported"
  by (simp add: example_defs dispatch_defs DeviceReports_def OnOperationComplete_def
      SetExternRC_def fun_eq_iff)


lemma dup_created_reached:
  "Create [DagChunk 0, DagChunk 0] [[4]] 8 op_done = Inr ([DagChunk 2], dup_created)"
  by (simp add: example_defs create_defs fun_eq_iff)

lemma dup_stuck_reached: "DispatcherRoutine 1 dup_created = Inr dup_stuck"
  by (simp add: example_defs dispatch_defs fun_eq_iff)





section \<open>Facts about the loops and about Create\<close>

lemma Iter_invariant:
  assumes "Iter xs f s = Inr s'" and "P s"
    and "\<And>x t t'. x \<in> set xs \<Longrightarrow> f x t = Inr t' \<Longrightarrow> P t \<Longrightarrow> P t'"
  shows "P s'"
  using assms
proof (induction xs arbitrary: s)
  case Nil
  then show ?case by simp
next
  case (Cons x xs)
  from Cons.prems(1) obtain t where t: "f x s = Inr t" and r: "Iter xs f t = Inr s'"
    by (auto simp: bind_err_eq_Inr)
  have "P t"
    using Cons.prems(3) [of x s t] t Cons.prems(2) by simp
  show ?case
  proof (rule Cons.IH [OF r \<open>P t\<close>])
    fix y u u'
    assume "y \<in> set xs" "f y u = Inr u'" "P u"
    then show "P u'"
      using Cons.prems(3) [of y u u'] by simp
  qed
qed

lemma MapE_chunk_node:
  "MapE params chunk_node = Inr ps \<Longrightarrow> params = map DagChunk ps"
proof (induction params arbitrary: ps)
  case Nil
  then show ?case by simp
next
  case (Cons c cs)
  then show ?case
    by (cases c) (auto simp: bind_err_eq_Inr chunk_node_def)
qed

lemma NewResultNodes_result:
  "NewResultNodes szs dev s = (ns, s') \<Longrightarrow>
     ns = [dag_next_id s ..< dag_next_id s + length szs] \<and>
     dag_next_id s' = dag_next_id s + length szs \<and>
     trace s' = trace s @ map ANewDataNode ns \<and>
     rt_info s' = rt_info s \<and> current_device_id s' = current_device_id s"
proof (induction szs arbitrary: s ns s')
  case Nil
  then show ?case by simp
next
  case (Cons sz szs)
  let ?s2 = "snd (NewDataNode \<lparr>data_size = sz, device_id = dev,
      data_id = fst (GenerateDataId s), extern_rc = 0\<rparr> (snd (GenerateDataId s)))"
  obtain ms t where rec: "NewResultNodes szs dev ?s2 = (ms, t)"
    by (cases "NewResultNodes szs dev ?s2")
  have s2: "dag_next_id ?s2 = dag_next_id s + 1" "trace ?s2 = trace s @ [ANewDataNode (dag_next_id s)]"
    "rt_info ?s2 = rt_info s" "current_device_id ?s2 = current_device_id s"
    by (simp_all add: NewDataNode_def GenerateDataId_def emit_def Let_def)
  have res: "ns = dag_next_id s # ms" "s' = t"
    using Cons.prems rec
    by (simp_all add: NewDataNode_def GenerateDataId_def Let_def split: prod.splits)
  show ?case
    using Cons.IH [OF rec] s2 res by (simp add: upt_rec)
qed

lemma fold_OnCreateNode:
  "trace (fold OnCreateNode ns s) = trace s @ map AAddNode ns \<and>
   dag (fold OnCreateNode ns s) = dag s \<and>
   dag_next_id (fold OnCreateNode ns s) = dag_next_id s \<and>
   current_device_id (fold OnCreateNode ns s) = current_device_id s"
  by (induction ns arbitrary: s) (simp_all add: OnCreateNode_def AddNode_def emit_def)

lemma NewOpNode_result:
  "NewOpNode ins outs p s = (i, s') \<Longrightarrow>
     i = dag_next_id s \<and> trace s' = trace s @ [ANewOpNode i] \<and> rt_info s' = rt_info s \<and>
     dag_next_id s' = i + 1"
  by (auto simp: NewOpNode_def Let_def emit_def)

lemma OnCreateEdge_frame:
  assumes "OnCreateEdge u v s = Inr s'"
  shows "dag s' = dag s"
    and "\<exists>tr. trace s' = trace s @ tr \<and> set tr \<subseteq> range AIncRef \<union> range AIncTriggers"
    and "q \<noteq> u \<Longrightarrow>
           map_option reference_count (rt_info s' q) = map_option reference_count (rt_info s q)"
    and "dispatcher_queue s' = dispatcher_queue s"
    and "num_nodes_yet_to_finish s' = num_nodes_yet_to_finish s"
  using assms
  by (auto simp: OnCreateEdge_def GetState_def At_def set_info_def emit_def Let_def
      bind_err_eq_Inr split: option.splits if_splits)

lemma trace_extends_trans:
  assumes "\<exists>tr. trace t = trace s @ tr \<and> set tr \<subseteq> A"
    and "\<exists>tr. trace u = trace t @ tr \<and> set tr \<subseteq> A"
  shows "\<exists>tr. trace u = trace s @ tr \<and> set tr \<subseteq> A"
proof -
  from assms obtain a b where "trace t = trace s @ a" "set a \<subseteq> A"
    "trace u = trace t @ b" "set b \<subseteq> A"
    by blast
  then have "trace u = trace s @ (a @ b) \<and> set (a @ b) \<subseteq> A"
    by simp
  then show ?thesis by blast
qed

lemma Iter_OnCreateEdge_from:
  assumes "Iter ps (\<lambda>n. OnCreateEdge n v) s = Inr s'"
  shows "dag s' = dag s"
    and "\<exists>tr. trace s' = trace s @ tr \<and> set tr \<subseteq> range AIncRef \<union> range AIncTriggers"
    and "q \<notin> set ps \<Longrightarrow>
           map_option reference_count (rt_info s' q) = map_option reference_count (rt_info s q)"
proof -
  show "dag s' = dag s"
    by (rule Iter_invariant [OF assms, where P = "\<lambda>t. dag t = dag s"])
      (simp_all add: OnCreateEdge_frame(1))
  show "\<exists>tr. trace s' = trace s @ tr \<and> set tr \<subseteq> range AIncRef \<union> range AIncTriggers"
  proof (rule Iter_invariant [OF assms])
    show "\<exists>tr. trace s = trace s @ tr \<and> set tr \<subseteq> range AIncRef \<union> range AIncTriggers"
      by simp
  next
    fix x t t'
    assume "OnCreateEdge x v t = Inr t'"
      and "\<exists>tr. trace t = trace s @ tr \<and> set tr \<subseteq> range AIncRef \<union> range AIncTriggers"
    then show "\<exists>tr. trace t' = trace s @ tr \<and> set tr \<subseteq> range AIncRef \<union> range AIncTriggers"
      using OnCreateEdge_frame(2) trace_extends_trans by blast
  qed
  show "map_option reference_count (rt_info s' q) = map_option reference_count (rt_info s q)"
    if q: "q \<notin> set ps"
  proof (rule Iter_invariant [OF assms])
    show "map_option reference_count (rt_info s q) = map_option reference_count (rt_info s q)"
      by simp
  next
    fix x t t'
    assume "x \<in> set ps" and e: "OnCreateEdge x v t = Inr t'"
      and "map_option reference_count (rt_info t q) = map_option reference_count (rt_info s q)"
    then show "map_option reference_count (rt_info t' q) = map_option reference_count (rt_info s q)"
      using OnCreateEdge_frame(3) [OF e, of q] q by auto
  qed
qed

lemma Iter_OnCreateEdge_to:
  assumes "Iter rs (\<lambda>n. OnCreateEdge u n) s = Inr s'"
  shows "dag s' = dag s"
    and "\<exists>tr. trace s' = trace s @ tr \<and> set tr \<subseteq> range AIncRef \<union> range AIncTriggers"
    and "rs = [] \<Longrightarrow> s' = s"
proof -
  show "dag s' = dag s"
    by (rule Iter_invariant [OF assms, where P = "\<lambda>t. dag t = dag s"])
      (simp_all add: OnCreateEdge_frame(1))
  show "\<exists>tr. trace s' = trace s @ tr \<and> set tr \<subseteq> range AIncRef \<union> range AIncTriggers"
  proof (rule Iter_invariant [OF assms])
    show "\<exists>tr. trace s = trace s @ tr \<and> set tr \<subseteq> range AIncRef \<union> range AIncTriggers"
      by simp
  next
    fix x t t'
    assume "OnCreateEdge u x t = Inr t'"
      and "\<exists>tr. trace t = trace s @ tr \<and> set tr \<subseteq> range AIncRef \<union> range AIncTriggers"
    then show "\<exists>tr. trace t' = trace s @ tr \<and> set tr \<subseteq> range AIncRef \<union> range AIncTriggers"
      using OnCreateEdge_frame(2) trace_extends_trans by blast
  qed
  show "rs = [] \<Longrightarrow> s' = s"
    using assms by simp
qed

lemma ProcessIfReady_frame:
  assumes "ProcessIfReady n s = Inr s'"
  shows "dag s' = dag s" and "rt_info s' = rt_info s"
    and "\<exists>tr. trace s' = trace s @ tr \<and> set tr \<subseteq> {AIncYetToFinish, AQueuePush kToRun n}"
  using assms
  by (auto simp: ProcessIfReady_def GetState_def At_def QueuePush_def IncYetToFinish_def
      emit_def bind_err_eq_Inr split: option.splits if_splits)

text \<open>The steps of \<open>Create\<close>, one after the other.\<close>

lemma Create_steps:
  assumes "Create params result_sizes fn s = Inr (ret, s')"
  obtains rs s1 ps s4 s5 s7 s8 s9 where
    "NewResultNodes result_sizes (current_device_id s) s = (rs, s1)"
    "MapE params chunk_node = Inr ps"
    "ret = map DagChunk rs"
    "NewOpNode ps rs \<lparr>compute_fn = fn, op_device_id = 0\<rparr>
       (Lock ps (fold OnCreateNode rs s1)) = (dag_next_id s1, s4)"
    "s5 = OnCreateNode (dag_next_id s1) (set_op_device (dag_next_id s1) (current_device_id s) s4)"
    "Iter ps (\<lambda>n. OnCreateEdge n (dag_next_id s1)) s5 = Inr s7"
    "Iter rs (\<lambda>n. OnCreateEdge (dag_next_id s1) n) s7 = Inr s8"
    "ProcessIfReady (dag_next_id s1) s8 = Inr s9"
    "s' = Unlock s9"
proof -
  obtain rs s1 where n: "NewResultNodes result_sizes (current_device_id s) s = (rs, s1)"
    by (cases "NewResultNodes result_sizes (current_device_id s) s")
  from assms n obtain ps where ps: "MapE params chunk_node = Inr ps"
    by (auto simp: Create_def Let_def bind_err_eq_Inr)
  let ?s3 = "Lock ps (fold OnCreateNode rs s1)"
  obtain i s4 where o: "NewOpNode ps rs \<lparr>compute_fn = fn, op_device_id = 0\<rparr> ?s3 = (i, s4)"
    by (cases "NewOpNode ps rs \<lparr>compute_fn = fn, op_device_id = 0\<rparr> ?s3")
  have i: "i = dag_next_id s1"
    using o fold_OnCreateNode [of rs s1]
    by (auto simp: NewOpNode_def Let_def Lock_def emit_def)
  from assms n ps o i obtain s7 s8 s9 where
    "Iter ps (\<lambda>n. OnCreateEdge n (dag_next_id s1))
       (OnCreateNode (dag_next_id s1)
          (set_op_device (dag_next_id s1) (current_device_id s) s4)) = Inr s7"
    "Iter rs (\<lambda>n. OnCreateEdge (dag_next_id s1) n) s7 = Inr s8"
    "ProcessIfReady (dag_next_id s1) s8 = Inr s9"
    "s' = Unlock s9" "ret = map DagChunk rs"
    by (auto simp: Create_def Let_def bind_err_eq_Inr)
  then show thesis
    using that n ps o i by blast
qed

section \<open>Facts about the dispatcher\<close>

lemma add_succ_body [simp]: "map_option body (add_succ u v g q) = map_option body (g q)"
  by (simp add: add_succ_def split: option.splits)

lemma add_pred_body [simp]: "map_option body (add_pred u v g q) = map_option body (g q)"
  by (simp add: add_pred_def split: option.splits)

lemma add_edge_body [simp]: "map_option body (add_edge u v g q) = map_option body (g q)"
  by (simp add: add_edge_def)

lemma fold_add_edge_from_body [simp]:
  "map_option body (fold (\<lambda>d. add_edge d i) ds g q) = map_option body (g q)"
  by (induction ds arbitrary: g) simp_all

lemma fold_add_edge_to_body [simp]:
  "map_option body (fold (\<lambda>d. add_edge i d) ds g q) = map_option body (g q)"
  by (induction ds arbitrary: g) simp_all

lemma NewOpNode_body:
  assumes "NewOpNode ins outs p s = (i, s')"
  shows "map_option body (dag s' i) = Some (OpBody p ins outs)"
proof -
  have "dag s' = fold (\<lambda>d. add_edge i d) outs (fold (\<lambda>d. add_edge d i) ins
       ((dag s)(i \<mapsto> \<lparr>predecessors = [], successors = [], body = OpBody p ins outs\<rparr>)))"
    using assms by (auto simp: NewOpNode_def Let_def emit_def)
  then show ?thesis by simp
qed

lemma OnDeleteNode_frame:
  "dag (OnDeleteNode i s) = dag s" "rt_info (OnDeleteNode i s) = (rt_info s)(i := None)"
  "trace (OnDeleteNode i s) = trace s @ [ARemoveNode i]"
  "dm_tasks (OnDeleteNode i s) = dm_tasks s"
  by (simp_all add: OnDeleteNode_def RemoveNode_def emit_def)

lemma FreeDataNodeRes_frame:
  "dag (FreeDataNodeRes d s) = dag s" "rt_info (FreeDataNodeRes d s) = rt_info s"
  "trace (FreeDataNodeRes d s) = trace s @ [AFreeData (data_id d)]"
  "dm_tasks (FreeDataNodeRes d s) = dm_tasks s"
  by (simp_all add: FreeDataNodeRes_def FreeData_def emit_def)

lemma TriggerSucc_frame:
  assumes "TriggerSucc c s = Inr s'"
  shows "dag s' = dag s"
    and "map_option reference_count (rt_info s' q) = map_option reference_count (rt_info s q)"
    and "map_option state (rt_info s' q) = map_option state (rt_info s q)"
    and "\<exists>tr. trace s' = trace s @ tr \<and>
           set tr \<subseteq> range ADecTriggers \<union> range (AQueuePush kToRun) \<union> {AIncYetToFinish}"
    and "dm_tasks s' = dm_tasks s"
proof -
  from assms obtain ri where ri: "rt_info s c = Some ri"
    by (cases "rt_info s c") (simp_all add: TriggerSucc_def At_def)
  let ?ri = "ri\<lparr>num_triggers_needed := num_triggers_needed ri - 1\<rparr>"
  let ?s1 = "emit (ADecTriggers c) (set_info c ?ri s)"
  have s': "s' = ?s1 \<or> s' = QueuePush kToRun c (IncYetToFinish ?s1)"
    using assms ri by (auto simp: TriggerSucc_def At_def Let_def split: if_splits)
  show "dag s' = dag s"
    using s' by (auto simp: QueuePush_def IncYetToFinish_def emit_def set_info_def)
  show "map_option reference_count (rt_info s' q) = map_option reference_count (rt_info s q)"
    using s' ri by (auto simp: QueuePush_def IncYetToFinish_def emit_def set_info_def)
  show "map_option state (rt_info s' q) = map_option state (rt_info s q)"
    using s' ri by (auto simp: QueuePush_def IncYetToFinish_def emit_def set_info_def)
  show "dm_tasks s' = dm_tasks s"
    using s' by (auto simp: QueuePush_def IncYetToFinish_def emit_def set_info_def)
  have "trace s' = trace s @ [ADecTriggers c] \<or>
        trace s' = trace s @ [ADecTriggers c, AIncYetToFinish, AQueuePush kToRun c]"
    using s' by (auto simp: QueuePush_def IncYetToFinish_def emit_def set_info_def)
  then show "\<exists>tr. trace s' = trace s @ tr \<and>
           set tr \<subseteq> range ADecTriggers \<union> range (AQueuePush kToRun) \<union> {AIncYetToFinish}"
  proof
    assume "trace s' = trace s @ [ADecTriggers c]"
    then show ?thesis
      by (intro exI [of _ "[ADecTriggers c]"]) simp
  next
    assume "trace s' = trace s @ [ADecTriggers c, AIncYetToFinish, AQueuePush kToRun c]"
    then show ?thesis
      by (intro exI [of _ "[ADecTriggers c, AIncYetToFinish, AQueuePush kToRun c]"]) simp
  qed
qed

lemma Iter_TriggerSucc_frame:
  assumes "Iter cs TriggerSucc s = Inr s'"
  shows "dag s' = dag s"
    and "map_option reference_count (rt_info s' q) = map_option reference_count (rt_info s q)"
    and "map_option state (rt_info s' q) = map_option state (rt_info s q)"
    and "\<exists>tr. trace s' = trace s @ tr \<and>
           set tr \<subseteq> range ADecTriggers \<union> range (AQueuePush kToRun) \<union> {AIncYetToFinish}"
    and "dm_tasks s' = dm_tasks s"
proof -
  show "dag s' = dag s"
    by (rule Iter_invariant [OF assms, where P = "\<lambda>t. dag t = dag s"])
      (simp_all add: TriggerSucc_frame(1))
  show "map_option reference_count (rt_info s' q) = map_option reference_count (rt_info s q)"
    by (rule Iter_invariant [OF assms, where P = "\<lambda>t. map_option reference_count (rt_info t q) =
         map_option reference_count (rt_info s q)"]) (simp_all add: TriggerSucc_frame(2))
  show "map_option state (rt_info s' q) = map_option state (rt_info s q)"
    by (rule Iter_invariant [OF assms, where P = "\<lambda>t. map_option state (rt_info t q) =
         map_option state (rt_info s q)"]) (simp_all add: TriggerSucc_frame(3))
  show "dm_tasks s' = dm_tasks s"
    by (rule Iter_invariant [OF assms, where P = "\<lambda>t. dm_tasks t = dm_tasks s"])
      (simp_all add: TriggerSucc_frame(5))
  show "\<exists>tr. trace s' = trace s @ tr \<and>
           set tr \<subseteq> range ADecTriggers \<union> range (AQueuePush kToRun) \<union> {AIncYetToFinish}"
  proof (rule Iter_invariant [OF assms])
    show "\<exists>tr. trace s = trace s @ tr \<and>
           set tr \<subseteq> range ADecTriggers \<union> range (AQueuePush kToRun) \<union> {AIncYetToFinish}"
      by simp
  next
    fix x t t'
    assume "TriggerSucc x t = Inr t'"
      and "\<exists>tr. trace t = trace s @ tr \<and>
           set tr \<subseteq> range ADecTriggers \<union> range (AQueuePush kToRun) \<union> {AIncYetToFinish}"
    then show "\<exists>tr. trace t' = trace s @ tr \<and>
           set tr \<subseteq> range ADecTriggers \<union> range (AQueuePush kToRun) \<union> {AIncYetToFinish}"
      using TriggerSucc_frame(4) [of x t t'] trace_extends_trans [of t s _ t'] by simp
  qed
qed

lemma DeleteAll_frame:
  "dag (DeleteAll td s) = dag s" "rt_info (DeleteAll td s) = rt_info s"
  "trace (DeleteAll td s) = trace s @ map ADelete td"
  "dm_tasks (DeleteAll td s) = dm_tasks s"
  by (induction td arbitrary: s) (simp_all add: DeleteAll_def emit_def)

lemma finish_body_frame:
  "dag (finish_body n td s) = dag s" "rt_info (finish_body n td s) = rt_info s"
  "dm_tasks (finish_body n td s) = dm_tasks s"
  "\<exists>tr. trace (finish_body n td s) = trace s @ tr \<and>
     set tr \<subseteq> {ADecYetToFinish, ANotifyAll, AUnlock} \<union> range ADelete"
proof -
  let ?t = "Unlock (NotifyIfDone n (DecYetToFinish s))"
  show "dag (finish_body n td s) = dag s" "rt_info (finish_body n td s) = rt_info s"
    "dm_tasks (finish_body n td s) = dm_tasks s"
    by (simp_all add: finish_body_def DeleteAll_frame Unlock_def NotifyIfDone_def
        DecYetToFinish_def emit_def)
  have "trace ?t = trace s @ [ADecYetToFinish, AUnlock] \<or>
        trace ?t = trace s @ [ADecYetToFinish, ANotifyAll, AUnlock]"
    by (simp add: Unlock_def NotifyIfDone_def DecYetToFinish_def emit_def)
  then have "trace (finish_body n td s) = trace s @ ([ADecYetToFinish, AUnlock] @ map ADelete td) \<or>
        trace (finish_body n td s) =
          trace s @ ([ADecYetToFinish, ANotifyAll, AUnlock] @ map ADelete td)"
    by (auto simp: finish_body_def DeleteAll_frame)
  then show "\<exists>tr. trace (finish_body n td s) = trace s @ tr \<and>
     set tr \<subseteq> {ADecYetToFinish, ANotifyAll, AUnlock} \<union> range ADelete"
  proof
    assume "trace (finish_body n td s) = trace s @ ([ADecYetToFinish, AUnlock] @ map ADelete td)"
    then show ?thesis
      by (intro exI [of _ "[ADecYetToFinish, AUnlock] @ map ADelete td"]) auto
  next
    assume "trace (finish_body n td s) =
          trace s @ ([ADecYetToFinish, ANotifyAll, AUnlock] @ map ADelete td)"
    then show ?thesis
      by (intro exI [of _ "[ADecYetToFinish, ANotifyAll, AUnlock] @ map ADelete td"]) auto
  qed
qed

text \<open>The steps of the dispatcher body for a completion event.\<close>

lemma DispatcherBody_completion:
  assumes "DispatcherBody (ty, n) s = Inr s'" and "dag s n = Some node"
    and "ty = kToComplete \<or> Type node = kDataNode"
  obtains ri to_delete s2 s3 where
    "rt_info s n = Some ri"
    "(if Type node = kOpNode
      then CompleteOp node (ri\<lparr>state := kCompleted\<rparr>)
             (emit (ASetCompleted n) (set_info n (ri\<lparr>state := kCompleted\<rparr>) (Lock [n] s)))
      else CompleteData n node (ri\<lparr>state := kCompleted\<rparr>)
             (emit (ASetCompleted n) (set_info n (ri\<lparr>state := kCompleted\<rparr>) (Lock [n] s))))
       = Inr (to_delete, s2)"
    "Iter (successors node) TriggerSucc s2 = Inr s3"
    "s' = finish_body n to_delete s3"
proof -
  from assms(1,2) obtain ri where ri: "rt_info s n = Some ri"
    by (cases "rt_info s n")
      (simp_all add: DispatcherBody_def GetNode_def At_def Lock_def emit_def)
  have at: "At n (Lock [n] s) = Inr ri"
    using ri by (simp add: At_def Lock_def emit_def)
  let ?s1 = "emit (ASetCompleted n) (set_info n (ri\<lparr>state := kCompleted\<rparr>) (Lock [n] s))"
  let ?c = "if Type node = kOpNode then CompleteOp node (ri\<lparr>state := kCompleted\<rparr>) ?s1
            else CompleteData n node (ri\<lparr>state := kCompleted\<rparr>) ?s1"
  have eq: "DispatcherBody (ty, n) s =
      bind_err ?c (\<lambda>(to_delete, s2).
        bind_err (Iter (successors node) TriggerSucc s2) (\<lambda>s3.
          Inr (finish_body n to_delete s3)))"
    using assms(2,3) at
    by (cases ty; cases "Type node")
      (simp_all add: DispatcherBody_def GetNode_def Let_def finish_body_def)
  from assms(1) obtain td s2 where c: "?c = Inr (td, s2)"
    unfolding eq by (cases ?c) auto
  from assms(1) obtain s3 where "Iter (successors node) TriggerSucc s2 = Inr s3"
    "s' = finish_body n td s3"
    unfolding eq c by (auto simp: bind_err_eq_Inr)
  then show thesis
    using that ri c by blast
qed

section \<open>The edge sets under the DAG operations\<close>

lemma insert_id_simps [simp]:
  "set (insert_id x xs) = insert x (set xs)"
  "distinct (insert_id x xs) = distinct xs"
  "insert_id x (insert_id x xs) = insert_id x xs"
  by (auto simp: insert_id_def)

lemma fold_insert_id [simp]:
  "set (fold insert_id ds xs) = set xs \<union> set ds"
  "distinct (fold insert_id ds xs) = distinct xs"
  by (induction ds arbitrary: xs) auto

lemma add_succ_edges [simp]:
  "dom (add_succ u v g) = dom g"
  "preds_of (add_succ u v g) q = preds_of g q"
  "succs_of (add_succ u v g) q =
     (if q = u \<and> u \<in> dom g then insert_id v (succs_of g q) else succs_of g q)"
  by (auto simp: add_succ_def preds_of_def succs_of_def split: option.splits if_splits)

lemma add_pred_edges [simp]:
  "dom (add_pred v u g) = dom g"
  "succs_of (add_pred v u g) q = succs_of g q"
  "preds_of (add_pred v u g) q =
     (if q = v \<and> v \<in> dom g then insert_id u (preds_of g q) else preds_of g q)"
  by (auto simp: add_pred_def preds_of_def succs_of_def split: option.splits if_splits)

lemma add_edge_edges [simp]:
  "dom (add_edge u v g) = dom g"
  "succs_of (add_edge u v g) q =
     (if q = u \<and> u \<in> dom g then insert_id v (succs_of g q) else succs_of g q)"
  "preds_of (add_edge u v g) q =
     (if q = v \<and> v \<in> dom g then insert_id u (preds_of g q) else preds_of g q)"
  by (auto simp: add_edge_def)

lemma fold_add_edge_from:
  "dom (fold (\<lambda>d. add_edge d i) ds g) = dom g"
  "preds_of (fold (\<lambda>d. add_edge d i) ds g) q =
     (if q = i \<and> i \<in> dom g then fold insert_id ds (preds_of g q) else preds_of g q)"
  "succs_of (fold (\<lambda>d. add_edge d i) ds g) q =
     (if q \<in> set ds \<and> q \<in> dom g then insert_id i (succs_of g q) else succs_of g q)"
  by (induction ds arbitrary: g) auto

lemma fold_add_edge_to:
  "dom (fold (\<lambda>d. add_edge i d) ds g) = dom g"
  "succs_of (fold (\<lambda>d. add_edge i d) ds g) q =
     (if q = i \<and> i \<in> dom g then fold insert_id ds (succs_of g q) else succs_of g q)"
  "preds_of (fold (\<lambda>d. add_edge i d) ds g) q =
     (if q \<in> set ds \<and> q \<in> dom g then insert_id i (preds_of g q) else preds_of g q)"
  by (induction ds arbitrary: g) auto

lemma del_succ_edges [simp]:
  "preds_of (del_succ u v g) q = preds_of g q"
  "succs_of (del_succ u v g) q = (if q = u then removeAll v (succs_of g q) else succs_of g q)"
  by (auto simp: del_succ_def preds_of_def succs_of_def split: option.splits)

lemma del_pred_edges [simp]:
  "succs_of (del_pred v u g) q = succs_of g q"
  "preds_of (del_pred v u g) q = (if q = v then removeAll u (preds_of g q) else preds_of g q)"
  by (auto simp: del_pred_def preds_of_def succs_of_def split: option.splits)

lemma fold_del_succ_edges:
  "preds_of (fold (\<lambda>p. del_succ p i) ps g) q = preds_of g q"
  "succs_of (fold (\<lambda>p. del_succ p i) ps g) q =
     (if q \<in> set ps then removeAll i (succs_of g q) else succs_of g q)"
  by (induction ps arbitrary: g) auto

lemma fold_del_pred_edges:
  "succs_of (fold (\<lambda>c. del_pred c i) cs g) q = succs_of g q"
  "preds_of (fold (\<lambda>c. del_pred c i) cs g) q =
     (if q \<in> set cs then removeAll i (preds_of g q) else preds_of g q)"
  by (induction cs arbitrary: g) auto

lemma RemoveNodeFromDag_edges:
  assumes "RemoveNodeFromDag r s = Inr s'"
  shows "dag s' q = None \<longleftrightarrow> q = r \<or> dag s q = None"
    and "preds_of (dag s') q =
      (if q = r then []
       else if q \<in> set (succs_of (dag s) r) then removeAll r (preds_of (dag s) q)
       else preds_of (dag s) q)"
    and "succs_of (dag s') q =
      (if q = r then []
       else if q \<in> set (preds_of (dag s) r) then removeAll r (succs_of (dag s) q)
       else succs_of (dag s) q)"
proof -
  from assms obtain nd where nd: "dag s r = Some nd"
    by (cases "dag s r") (simp_all add: RemoveNodeFromDag_def GetNode_def)
  let ?g0 = "(dag s)(r := None)"
  have d: "dag s' = fold (\<lambda>c. del_pred c r) (successors nd)
                     (fold (\<lambda>p. del_succ p r) (predecessors nd) ?g0)"
    using assms nd by (auto simp: RemoveNodeFromDag_def GetNode_def Let_def emit_def)
  have g0: "preds_of ?g0 x = (if x = r then [] else preds_of (dag s) x)"
    "succs_of ?g0 x = (if x = r then [] else succs_of (dag s) x)" for x
    by (simp_all add: preds_of_def succs_of_def)
  have e: "succs_of (dag s) r = successors nd" "preds_of (dag s) r = predecessors nd"
    using nd by (simp_all add: preds_of_def succs_of_def)
  show "dag s' q = None \<longleftrightarrow> q = r \<or> dag s q = None"
    unfolding d by simp
  show "preds_of (dag s') q =
      (if q = r then []
       else if q \<in> set (succs_of (dag s) r) then removeAll r (preds_of (dag s) q)
       else preds_of (dag s) q)"
    unfolding d e by (simp add: fold_del_pred_edges fold_del_succ_edges g0)
  show "succs_of (dag s') q =
      (if q = r then []
       else if q \<in> set (preds_of (dag s) r) then removeAll r (succs_of (dag s) q)
       else succs_of (dag s) q)"
    unfolding d e by (simp add: fold_del_pred_edges fold_del_succ_edges g0)
qed

lemma edges_ok_cong:
  "preds_of g' = preds_of g \<Longrightarrow> succs_of g' = succs_of g \<Longrightarrow> edges_ok g' = edges_ok g"
  by (simp add: edges_ok_def)

lemma edges_ok_add_edge:
  assumes "edges_ok g" and "u \<in> dom g" and "v \<in> dom g"
  shows "edges_ok (add_edge u v g)"
  using assms unfolding edges_ok_def by auto

lemma edges_ok_fold_from:
  "edges_ok g \<Longrightarrow> set ds \<subseteq> dom g \<Longrightarrow> i \<in> dom g \<Longrightarrow>
     edges_ok (fold (\<lambda>d. add_edge d i) ds g)"
proof (induction ds arbitrary: g)
  case Nil
  then show ?case by simp
next
  case (Cons d ds)
  have "edges_ok (add_edge d i g)"
    using Cons.prems by (intro edges_ok_add_edge) auto
  then show ?case
    using Cons.IH [of "add_edge d i g"] Cons.prems by simp
qed

lemma edges_ok_fold_to:
  "edges_ok g \<Longrightarrow> set ds \<subseteq> dom g \<Longrightarrow> i \<in> dom g \<Longrightarrow>
     edges_ok (fold (\<lambda>d. add_edge i d) ds g)"
proof (induction ds arbitrary: g)
  case Nil
  then show ?case by simp
next
  case (Cons d ds)
  have "edges_ok (add_edge i d g)"
    using Cons.prems by (intro edges_ok_add_edge) auto
  then show ?case
    using Cons.IH [of "add_edge i d g"] Cons.prems by simp
qed

lemma filter_distinct_le:
  assumes "distinct xs" and "set xs \<subseteq> set ys"
  shows "length (filter P xs) \<le> length (filter P ys)"
proof -
  have "distinct (filter P xs)"
    using assms(1) by simp
  then have "length (filter P xs) = card (set (filter P xs))"
    by (rule distinct_card [symmetric])
  also have "\<dots> \<le> card (set (filter P ys))"
    using assms(2) by (intro card_mono) auto
  also have "\<dots> \<le> length (filter P ys)"
    by (rule card_length)
  finally show ?thesis .
qed

section \<open>Every task is pushed at most once\<close>

lemma to_run_simps [simp]:
  "to_run [] = []"
  "to_run ((kToRun, i) # q) = i # to_run q"
  "to_run ((kToComplete, i) # q) = to_run q"
  "to_run (q @ q') = to_run q @ to_run q'"
  by (simp_all add: to_run_def)

lemma pushed_emit:
  "pushed (trace (emit a s)) = pushed (trace s) @ pushed [a]"
  by (simp add: emit_def)

lemma once_invD:
  assumes "once_inv s"
  shows "distinct (armed s)"
    and "i \<in> set (armed s) \<Longrightarrow> i < dag_next_id s"
    and "rt_info s i = Some ri \<Longrightarrow> i < dag_next_id s"
    and "rt_info s i = Some ri \<Longrightarrow> i \<in> set (armed s) \<Longrightarrow> state ri = kReady \<Longrightarrow>
           num_triggers_needed ri \<le> 0"
  using assms unfolding once_inv_def by blast+

lemma once_invI:
  assumes "distinct (armed s)"
    and "\<And>i. i \<in> set (armed s) \<Longrightarrow> i < dag_next_id s"
    and "\<And>i ri. rt_info s i = Some ri \<Longrightarrow> i < dag_next_id s"
    and "\<And>i ri. rt_info s i = Some ri \<Longrightarrow> i \<in> set (armed s) \<Longrightarrow> state ri = kReady \<Longrightarrow>
           num_triggers_needed ri \<le> 0"
  shows "once_inv s"
  using assms unfolding once_inv_def by blast

text \<open>A transition that arms no node, frees no id and raises no counter keeps \<open>once_inv\<close>.\<close>

lemma once_inv_mono:
  assumes "once_inv s"
    and "distinct (armed s')" and "set (armed s') \<subseteq> set (armed s)"
    and "dag_next_id s \<le> dag_next_id s'"
    and "\<And>i ri'. rt_info s' i = Some ri' \<Longrightarrow>
           \<exists>ri. rt_info s i = Some ri \<and>
             (state ri' = kReady \<longrightarrow> state ri = kReady \<and>
                num_triggers_needed ri' \<le> num_triggers_needed ri)"
  shows "once_inv s'"
proof (rule once_invI)
  show "distinct (armed s')"
    using assms(2) .
  show "i < dag_next_id s'" if "i \<in> set (armed s')" for i
    using once_invD(2) [OF assms(1), of i] that assms(3,4) by auto
next
  fix i ri'
  assume r: "rt_info s' i = Some ri'"
  from assms(5) [OF r] obtain ri where ri: "rt_info s i = Some ri"
    "state ri' = kReady \<longrightarrow> state ri = kReady \<and> num_triggers_needed ri' \<le> num_triggers_needed ri"
    by blast
  show "i < dag_next_id s'"
    using once_invD(3) [OF assms(1) ri(1)] assms(4) by simp
  show "num_triggers_needed ri' \<le> 0" if "i \<in> set (armed s')" "state ri' = kReady"
  proof -
    have "num_triggers_needed ri \<le> 0"
      using once_invD(4) [OF assms(1) ri(1)] that ri(2) assms(3) by auto
    then show ?thesis
      using ri(2) that(2) by simp
  qed
qed

lemma once_inv_keep:
  assumes "once_inv s"
    and "armed s' = armed s"
    and "dag_next_id s \<le> dag_next_id s'"
    and "\<And>i ri'. rt_info s' i = Some ri' \<Longrightarrow>
           \<exists>ri. rt_info s i = Some ri \<and>
             (state ri' = kReady \<longrightarrow> state ri = kReady \<and>
                num_triggers_needed ri' \<le> num_triggers_needed ri)"
  shows "once_inv s'"
  using assms(1)
proof (rule once_inv_mono)
  show "distinct (armed s')"
    using once_invD(1) [OF assms(1)] assms(2) by simp
qed (simp_all add: assms(2-4))

lemma TriggerSucc_once: 
  assumes "TriggerSucc c s = Inr s'" and "once_inv s"
  shows "once_inv s'"
proof -
  from assms(1) obtain ri where ri: "rt_info s c = Some ri"
    by (cases "rt_info s c") (simp_all add: TriggerSucc_def At_def)
  let ?ri = "ri\<lparr>num_triggers_needed := num_triggers_needed ri - 1\<rparr>"
  let ?s1 = "emit (ADecTriggers c) (set_info c ?ri s)"
  have s1: "once_inv ?s1"
  proof (rule once_inv_keep [OF assms(2)])
    show "armed ?s1 = armed s"
      by (simp add: armed_def emit_def set_info_def)
    show "dag_next_id s \<le> dag_next_id ?s1"
      by (simp add: emit_def set_info_def)
    fix i ri'
    assume "rt_info ?s1 i = Some ri'"
    then show "\<exists>ri. rt_info s i = Some ri \<and>
             (state ri' = kReady \<longrightarrow> state ri = kReady \<and>
                num_triggers_needed ri' \<le> num_triggers_needed ri)"
      using ri by (cases "i = c") (auto simp: emit_def set_info_def)
  qed
  show ?thesis
  proof (cases "state ri = kReady \<and> num_triggers_needed ri - 1 = 0")
    case False
    then have "s' = ?s1"
      using assms(1) ri by (auto simp: TriggerSucc_def At_def Let_def)
    then show ?thesis
      using s1 by simp
  next
    case True
    then have s': "s' = QueuePush kToRun c (IncYetToFinish ?s1)"
      using assms(1) ri by (simp add: TriggerSucc_def At_def Let_def)
    have a: "armed s' = armed s @ [c]"
      unfolding s' by (simp add: armed_def QueuePush_def IncYetToFinish_def emit_def set_info_def)
    have rt: "rt_info s' = (rt_info s)(c \<mapsto> ?ri)" and nx: "dag_next_id s' = dag_next_id s"
      unfolding s' by (simp_all add: QueuePush_def IncYetToFinish_def emit_def set_info_def)
    have cn: "c \<notin> set (armed s)"
    proof
      assume "c \<in> set (armed s)"
      then have "num_triggers_needed ri \<le> 0"
        using once_invD(4) [OF assms(2) ri] True by simp
      then show False
        using True by simp
    qed
    have cl: "c < dag_next_id s"
      using once_invD(3) [OF assms(2) ri] .
    show ?thesis
    proof (rule once_invI)
      show "distinct (armed s')"
        unfolding a using once_invD(1) [OF assms(2)] cn by simp
      show "i < dag_next_id s'" if "i \<in> set (armed s')" for i
        using that once_invD(2) [OF assms(2), of i] cl unfolding a nx by auto
    next
      fix i ri'
      assume r: "rt_info s' i = Some ri'"
      show "i < dag_next_id s'"
        using r once_invD(3) [OF assms(2), of i] cl unfolding rt nx
        by (cases "i = c") auto
      show "num_triggers_needed ri' \<le> 0" if "i \<in> set (armed s')" "state ri' = kReady"
      proof (cases "i = c")
        case True
        then show ?thesis
          using r \<open>state ri = kReady \<and> num_triggers_needed ri - 1 = 0\<close> unfolding rt by auto
      next
        case False
        then show ?thesis
          using r that once_invD(4) [OF assms(2), of i ri'] unfolding rt a by auto
      qed
    qed
  qed
qed

lemma Iter_TriggerSucc_once:
  "Iter cs TriggerSucc s = Inr s' \<Longrightarrow> once_inv s \<Longrightarrow> once_inv s'"
  by (erule Iter_invariant [where P = once_inv]) (auto intro: TriggerSucc_once)

text \<open>Removing a node, or changing a reference count, keeps \<open>once_inv\<close>.\<close>

lemma remove_once:
  assumes "RemoveNodeFromDag r s = Inr s1" and "once_inv s"
  shows "once_inv (OnDeleteNode r s1)"
proof (rule once_inv_keep [OF assms(2)])
  show "armed (OnDeleteNode r s1) = armed s"
    using RemoveNodeFromDag_Inr(6,7) [OF assms(1)]
    by (simp add: armed_def OnDeleteNode_def RemoveNode_def emit_def)
  show "dag_next_id s \<le> dag_next_id (OnDeleteNode r s1)"
    using RemoveNodeFromDag_Inr(11) [OF assms(1)]
    by (simp add: OnDeleteNode_def RemoveNode_def emit_def)
  fix i ri'
  assume "rt_info (OnDeleteNode r s1) i = Some ri'"
  then show "\<exists>ri. rt_info s i = Some ri \<and>
             (state ri' = kReady \<longrightarrow> state ri = kReady \<and>
                num_triggers_needed ri' \<le> num_triggers_needed ri)"
    using RemoveNodeFromDag_Inr(5) [OF assms(1)]
    by (cases "i = r") (auto simp: OnDeleteNode_frame)
qed

lemma set_refcount_once:
  assumes "once_inv s" and "rt_info s p = Some pri" and "pushed [a] = []"
  shows "once_inv (emit a (set_info p (pri\<lparr>reference_count := v\<rparr>) s))"
proof (rule once_inv_keep [OF assms(1)])
  let ?t = "emit a (set_info p (pri\<lparr>reference_count := v\<rparr>) s)"
  show "armed ?t = armed s"
    using assms(3) by (simp add: armed_def emit_def set_info_def)
  show "dag_next_id s \<le> dag_next_id ?t"
    by (simp add: emit_def set_info_def)
  fix i ri'
  assume "rt_info ?t i = Some ri'"
  then show "\<exists>ri. rt_info s i = Some ri \<and>
             (state ri' = kReady \<longrightarrow> state ri = kReady \<and>
                num_triggers_needed ri' \<le> num_triggers_needed ri)"
    using assms(2) by (cases "i = p") (auto simp: emit_def set_info_def)
qed

lemma FreeDataNodeRes_once:
  assumes "once_inv s"
  shows "once_inv (FreeDataNodeRes d s)"
  by (rule once_inv_keep [OF assms])
    (simp_all add: armed_def FreeDataNodeRes_def FreeData_def emit_def)

lemma release_pred_once:
  assumes "release_pred p (td, s) = Inr (td', s')" and "once_inv s"
  shows "once_inv s'"
proof -
  from assms(1) obtain pri where pri: "rt_info s p = Some pri"
    by (cases "rt_info s p") (simp_all add: release_pred_def At_def)
  have at: "At p s = Inr pri"
    using pri by (simp add: At_def)
  from assms(1) at obtain d where dn: "data_node 187 p s = Inr d"
    by (cases "data_node 187 p s") (simp_all add: release_pred_def)
  let ?rc = "reference_count pri - 1"
  let ?s1 = "emit (ADecRef p) (set_info p (pri\<lparr>reference_count := ?rc\<rparr>) s)"
  have s1: "once_inv ?s1"
    by (rule set_refcount_once [OF assms(2) pri]) simp
  have eq: "(if ?rc = 0 \<and> extern_rc d = 0
             then bind_err (RemoveNodeFromDag p (FreeDataNodeRes d ?s1))
                    (\<lambda>s2. Inr (td @ [p], OnDeleteNode p s2))
             else Inr (td, ?s1)) = Inr (td', s')"
    using assms(1) at dn by (auto simp: release_pred_def Let_def split: if_splits)
  show ?thesis
  proof (cases "?rc = 0 \<and> extern_rc d = 0")
    case True
    with eq obtain s2 where r: "RemoveNodeFromDag p (FreeDataNodeRes d ?s1) = Inr s2"
      and e: "s' = OnDeleteNode p s2"
      by (auto simp: bind_err_eq_Inr)
    show ?thesis
      unfolding e by (rule remove_once [OF r FreeDataNodeRes_once [OF s1]])
  next
    case False
    with eq have "s' = ?s1" by auto
    then show ?thesis using s1 by simp
  qed
qed

lemma Iter_release_pred_once:
  assumes "Iter ps release_pred (td, s) = Inr (td', s')" and "once_inv s"
  shows "once_inv s'"
proof -
  have "once_inv (snd (td', s'))"
  proof (rule Iter_invariant [OF assms(1), where P = "\<lambda>ts. once_inv (snd ts)"])
    show "once_inv (snd (td, s))"
      using assms(2) by simp
  next
    fix x t t'
    assume "release_pred x t = Inr t'" "once_inv (snd t)"
    then show "once_inv (snd t')"
      using release_pred_once [of x "fst t" "snd t" "fst t'" "snd t'"] by simp
  qed
  then show ?thesis by simp
qed

lemma CompleteData_once:
  assumes "CompleteData n node ri s = Inr (td, s')" and "once_inv s"
  shows "once_inv s'"
proof -
  from assms(1) obtain d where d: "body node = DataBody d"
    by (cases "body node") (simp_all add: CompleteData_def)
  let ?a = "if reference_count ri = 0 \<and> extern_rc d = 0
            then bind_err (RemoveNodeFromDag n (FreeDataNodeRes d s))
                   (\<lambda>t. Inr ([n], OnDeleteNode n t))
            else Inr ([], s)"
  from assms(1) d obtain td1 t2 where a: "?a = Inr (td1, t2)"
    by (cases ?a) (auto simp: CompleteData_def)
  have t2: "once_inv t2"
  proof (cases "reference_count ri = 0 \<and> extern_rc d = 0")
    case True
    with a obtain t where t: "RemoveNodeFromDag n (FreeDataNodeRes d s) = Inr t"
      and e: "t2 = OnDeleteNode n t"
      by (auto simp: bind_err_eq_Inr)
    show ?thesis
      unfolding e by (rule remove_once [OF t FreeDataNodeRes_once [OF assms(2)]])
  next
    case False
    with a have "t2 = s" by auto
    then show ?thesis using assms(2) by simp
  qed
  let ?p = "hd (predecessors node)"
  have c2: "bind_err (At ?p t2) (\<lambda>pred_ri.
              if num_triggers_needed pred_ri \<noteq> 0 then Inl (Check 209)
              else
                if reference_count pred_ri - 1 = 0
                then bind_err (RemoveNodeFromDag ?p
                       (emit (ADecRef ?p)
                          (set_info ?p (pred_ri\<lparr>reference_count := reference_count pred_ri - 1\<rparr>) t2)))
                       (\<lambda>u4. Inr (td1 @ [?p], OnDeleteNode ?p u4))
                else Inr (td1, emit (ADecRef ?p)
                       (set_info ?p (pred_ri\<lparr>reference_count := reference_count pred_ri - 1\<rparr>) t2)))
            = Inr (td, s')"
    using assms(1) a d
    by (simp add: CompleteData_def Let_def split: if_splits cong: if_cong)
  from c2 obtain pri where pri: "rt_info t2 ?p = Some pri"
    by (cases "rt_info t2 ?p") (auto simp: At_def)
  have at: "At ?p t2 = Inr pri"
    using pri by (simp add: At_def)
  let ?u3 = "emit (ADecRef ?p) (set_info ?p (pri\<lparr>reference_count := reference_count pri - 1\<rparr>) t2)"
  have u3: "once_inv ?u3"
    by (rule set_refcount_once [OF t2 pri]) simp
  have c3: "(if reference_count pri - 1 = 0
             then bind_err (RemoveNodeFromDag ?p ?u3) (\<lambda>u4. Inr (td1 @ [?p], OnDeleteNode ?p u4))
             else Inr (td1, ?u3)) = Inr (td, s')"
    using c2 unfolding at by (auto split: if_splits)
  show ?thesis
  proof (cases "reference_count pri - 1 = 0")
    case True
    with c3 obtain u4 where r: "RemoveNodeFromDag ?p ?u3 = Inr u4" and e: "s' = OnDeleteNode ?p u4"
      by (auto simp: bind_err_eq_Inr)
    show ?thesis
      unfolding e by (rule remove_once [OF r u3])
  next
    case False
    with c3 have "s' = ?u3" by auto
    then show ?thesis using u3 by simp
  qed
qed

lemma pushed_map [simp]:
  "pushed (map ADelete ns) = []" "pushed (map ANewDataNode ns) = []"
  "pushed (map AAddNode ns) = []"
  by (induction ns) simp_all

lemma emit_once:
  assumes "once_inv s" and "pushed [a] = []"
  shows "once_inv (emit a s)"
  by (rule once_inv_keep [OF assms(1)]) (simp_all add: armed_def emit_def assms(2))

lemma DeleteAll_once:
  assumes "once_inv s"
  shows "once_inv (DeleteAll td s)"
proof (rule once_inv_keep [OF assms])
  have "dispatcher_queue (DeleteAll td t) = dispatcher_queue t \<and>
        dag_next_id (DeleteAll td t) = dag_next_id t" for t
    by (induction td arbitrary: t) (simp_all add: DeleteAll_def emit_def)
  then show "armed (DeleteAll td s) = armed s" "dag_next_id s \<le> dag_next_id (DeleteAll td s)"
    by (simp_all add: armed_def DeleteAll_frame(3))
qed (simp add: DeleteAll_frame(2))

lemma finish_body_once:
  assumes "once_inv s"
  shows "once_inv (finish_body n td s)"
proof -
  have "once_inv (DecYetToFinish s)"
    by (rule once_inv_keep [OF assms]) (simp_all add: armed_def DecYetToFinish_def emit_def)
  then have "once_inv (NotifyIfDone n (DecYetToFinish s))"
    by (simp add: NotifyIfDone_def emit_once)
  then have "once_inv (Unlock (NotifyIfDone n (DecYetToFinish s)))"
    by (simp add: Unlock_def emit_once)
  then show ?thesis
    unfolding finish_body_def by (rule DeleteAll_once)
qed

text \<open>Popping an event keeps \<open>once_inv\<close>.\<close>

lemma pop_once:
  assumes "once_inv s" and "dispatcher_queue s = task # q"
  shows "once_inv (s\<lparr>dispatcher_queue := q\<rparr>)"
proof (rule once_inv_mono [OF assms(1)])
  have a: "armed s = pushed (trace s) @ to_run [task] @ to_run q"
    using assms(2) to_run_simps(4) [of "[task]" q] by (simp add: armed_def)
  have b: "armed (s\<lparr>dispatcher_queue := q\<rparr>) = pushed (trace s) @ to_run q"
    by (simp add: armed_def)
  show "distinct (armed (s\<lparr>dispatcher_queue := q\<rparr>))"
    using once_invD(1) [OF assms(1)] unfolding a b by auto
  show "set (armed (s\<lparr>dispatcher_queue := q\<rparr>)) \<subseteq> set (armed s)"
    unfolding a b by auto
qed simp_all

lemma set_completed_once:
  assumes "once_inv s" and "rt_info s n = Some ri"
  shows "once_inv (emit (ASetCompleted n) (set_info n (ri\<lparr>state := kCompleted\<rparr>) (Lock [n] s)))"
proof (rule once_inv_keep [OF assms(1)])
  let ?t = "emit (ASetCompleted n) (set_info n (ri\<lparr>state := kCompleted\<rparr>) (Lock [n] s))"
  show "armed ?t = armed s"
    by (simp add: armed_def emit_def set_info_def Lock_def)
  show "dag_next_id s \<le> dag_next_id ?t"
    by (simp add: emit_def set_info_def Lock_def)
  fix i ri'
  assume "rt_info ?t i = Some ri'"
  then show "\<exists>ri. rt_info s i = Some ri \<and>
             (state ri' = kReady \<longrightarrow> state ri = kReady \<and>
                num_triggers_needed ri' \<le> num_triggers_needed ri)"
    using assms(2) by (cases "i = n") (auto simp: emit_def set_info_def Lock_def)
qed

text \<open>The dispatcher keeps \<open>once_inv\<close>, whatever event it pops.\<close>

lemma DispatcherBody_once:
  assumes "dispatcher_queue s = (ty, n) # q"
    and "DispatcherBody (ty, n) (s\<lparr>dispatcher_queue := q\<rparr>) = Inr s'"
    and "once_inv s"
  shows "once_inv s'"
proof -
  let ?s0 = "s\<lparr>dispatcher_queue := q\<rparr>"
  from assms(2) obtain node where node: "dag s n = Some node"
    by (cases "dag s n") (simp_all add: DispatcherBody_def GetNode_def)
  from assms(2) node obtain ri where ri: "rt_info s n = Some ri"
    by (cases "rt_info s n")
      (simp_all add: DispatcherBody_def GetNode_def At_def Lock_def emit_def)
  show ?thesis
  proof (cases "ty = kToRun \<and> Type node = kOpNode")
    case True
    then obtain p ins outs where b: "body node = OpBody p ins outs"
      by (cases "body node") (simp_all add: Type_def)
    have at: "At n (Lock [n] ?s0) = Inr ri"
      using ri by (simp add: At_def Lock_def emit_def)
    from assms(2) node at True b obtain tin tout where
      s': "s' = Unlock (PushTask (op_device_id p)
                 \<lparr>task_inputs = tin, task_outputs = tout, task_op = p, task_id = n\<rparr>
                 (Lock [n] ?s0))"
      by (auto simp: DispatcherBody_def GetNode_def Let_def bind_err_eq_Inr)
    have a: "armed s = pushed (trace s) @ n # to_run q"
      using assms(1) True by (simp add: armed_def)
    have a': "armed s' = pushed (trace s) @ n # to_run q"
      unfolding s' by (simp add: armed_def Unlock_def PushTask_def Lock_def emit_def)
    show ?thesis
      by (rule once_inv_keep [OF assms(3)])
        (simp_all add: a a', simp_all add: s' Unlock_def PushTask_def Lock_def emit_def)
  next
    case False
    then have c: "ty = kToComplete \<or> Type node = kDataNode"
      by (cases ty; cases "Type node") simp_all
    have node0: "dag ?s0 n = Some node"
      using node by simp
    obtain ri0 td s2 s3 where ri0: "rt_info ?s0 n = Some ri0"
      and comp: "(if Type node = kOpNode
          then CompleteOp node (ri0\<lparr>state := kCompleted\<rparr>)
                 (emit (ASetCompleted n) (set_info n (ri0\<lparr>state := kCompleted\<rparr>) (Lock [n] ?s0)))
          else CompleteData n node (ri0\<lparr>state := kCompleted\<rparr>)
                 (emit (ASetCompleted n) (set_info n (ri0\<lparr>state := kCompleted\<rparr>) (Lock [n] ?s0))))
           = Inr (td, s2)"
      and it: "Iter (successors node) TriggerSucc s2 = Inr s3"
      and s': "s' = finish_body n td s3"
      by (rule DispatcherBody_completion [OF assms(2) node0 c])
    let ?s1 = "emit (ASetCompleted n) (set_info n (ri0\<lparr>state := kCompleted\<rparr>) (Lock [n] ?s0))"
    have s1: "once_inv ?s1"
      by (rule set_completed_once [OF pop_once [OF assms(3,1)] ri0])
    have s2: "once_inv s2"
    proof (cases "Type node = kOpNode")
      case True
      with comp have "Iter (predecessors node) release_pred ([], ?s1) = Inr (td, s2)"
        by (simp add: CompleteOp_def split: if_splits)
      then show ?thesis
        using s1 by (rule Iter_release_pred_once)
    next
      case False
      with comp have "CompleteData n node (ri0\<lparr>state := kCompleted\<rparr>) ?s1 = Inr (td, s2)"
        by simp
      then show ?thesis
        using s1 by (rule CompleteData_once)
    qed
    show ?thesis
      unfolding s' by (rule finish_body_once [OF Iter_TriggerSucc_once [OF it s2]])
  qed
qed

text \<open>\<open>Create\<close> arms at most the new op node and leaves the old nodes as they are.\<close>

lemma OnCreateEdge_created_frame:
  assumes "OnCreateEdge u v t = Inr t'" and "k \<le> v" and "created_frame k n s t"
  shows "created_frame k n s t'"
proof -
  from assms(1) obtain fi where fi: "rt_info t u = Some fi"
    by (cases "rt_info t u")
      (auto simp: OnCreateEdge_def GetState_def At_def bind_err_eq_Inr split: if_splits)
  let ?t1 = "emit (AIncRef u) (set_info u (fi\<lparr>reference_count := reference_count fi + 1\<rparr>) t)"
  have f1: "created_frame k n s ?t1"
    using assms(3) fi unfolding created_frame_def
    by (auto simp: emit_def set_info_def)
  show ?thesis
  proof (cases "state fi = kCompleted")
    case True
    then have "t' = ?t1"
      using assms(1) fi
      by (auto simp: OnCreateEdge_def GetState_def At_def Let_def emit_def set_info_def
          bind_err_eq_Inr split: if_splits option.splits)
    then show ?thesis
      using f1 by simp
  next
    case False
    from assms(1) fi False obtain ti where ti: "rt_info ?t1 v = Some ti"
      and t': "t' = emit (AIncTriggers v)
                 (set_info v (ti\<lparr>num_triggers_needed := num_triggers_needed ti + 1\<rparr>) ?t1)"
      by (auto simp: OnCreateEdge_def GetState_def At_def Let_def emit_def set_info_def
          bind_err_eq_Inr split: if_splits option.splits)
    have "v < n"
      using f1 ti unfolding created_frame_def by blast
    then show ?thesis
      using f1 assms(2) unfolding t' created_frame_def
      by (auto simp: emit_def set_info_def)
  qed
qed

lemma NewResultNodes_frame:
  "NewResultNodes szs dev s = (ns, s') \<Longrightarrow>
     dispatcher_queue s' = dispatcher_queue s \<and> dm_tasks s' = dm_tasks s \<and>
     dom (dag s') = dom (dag s) \<union> set ns \<and>
     (\<forall>x. x \<notin> set ns \<longrightarrow> dag s' x = dag s x) \<and>
     (\<forall>x. x \<in> set ns \<longrightarrow> preds_of (dag s') x = [] \<and> succs_of (dag s') x = [])"
proof (induction szs arbitrary: s ns s')
  case Nil
  then show ?case by simp
next
  case (Cons sz szs)
  let ?d = "\<lparr>data_size = sz, device_id = dev, data_id = fst (GenerateDataId s), extern_rc = 0\<rparr>"
  let ?s2 = "snd (NewDataNode ?d (snd (GenerateDataId s)))"
  obtain ms t where rec: "NewResultNodes szs dev ?s2 = (ms, t)"
    by (cases "NewResultNodes szs dev ?s2")
  have s2: "dispatcher_queue ?s2 = dispatcher_queue s" "dm_tasks ?s2 = dm_tasks s"
    "dag ?s2 = (dag s)(dag_next_id s \<mapsto> \<lparr>predecessors = [], successors = [], body = DataBody ?d\<rparr>)"
    "dag_next_id ?s2 = dag_next_id s + 1"
    by (simp_all add: NewDataNode_def GenerateDataId_def emit_def Let_def)
  have res: "ns = dag_next_id s # ms" "s' = t"
    using Cons.prems rec
    by (simp_all add: NewDataNode_def GenerateDataId_def Let_def split: prod.splits)
  have ms: "ms = [dag_next_id s + 1 ..< dag_next_id s + 1 + length szs]"
    using NewResultNodes_result [OF rec] s2(4) by simp
  have "set ms = {dag_next_id s + 1 ..< dag_next_id s + 1 + length szs}"
    unfolding ms by (rule set_upt)
  then have k: "dag_next_id s \<notin> set ms"
    by simp
  note ih = Cons.IH [OF rec]
  show ?case
    unfolding res
  proof (intro conjI allI impI)
    show "dispatcher_queue t = dispatcher_queue s" "dm_tasks t = dm_tasks s"
      using ih s2(1,2) by simp_all
    show "dom (dag t) = dom (dag s) \<union> set (dag_next_id s # ms)"
      using ih unfolding s2(3) by auto
    show "dag t x = dag s x" if "x \<notin> set (dag_next_id s # ms)" for x
      using ih that unfolding s2(3) by simp
    show "preds_of (dag t) x = []" "succs_of (dag t) x = []"
      if "x \<in> set (dag_next_id s # ms)" for x
    proof -
      have "x \<in> set ms \<or> (x \<notin> set ms \<and> x = dag_next_id s)"
        using that by auto
      then show "preds_of (dag t) x = []" "succs_of (dag t) x = []"
        using ih unfolding s2(3) by (auto simp: preds_of_def succs_of_def)
    qed
  qed
qed

lemma fold_OnCreateNode_info:
  "dispatcher_queue (fold OnCreateNode ns s) = dispatcher_queue s \<and>
   dm_tasks (fold OnCreateNode ns s) = dm_tasks s \<and>
   (\<forall>i. rt_info (fold OnCreateNode ns s) i =
      (if i \<in> set ns
       then Some \<lparr>num_triggers_needed = 0, reference_count = 0, state = kReady\<rparr>
       else rt_info s i))"
  by (induction ns arbitrary: s) (auto simp: OnCreateNode_def AddNode_def emit_def)

lemma set_op_device_frame:
  "dispatcher_queue (set_op_device i d t) = dispatcher_queue t"
  "dm_tasks (set_op_device i d t) = dm_tasks t"
  "rt_info (set_op_device i d t) = rt_info t"
  "trace (set_op_device i d t) = trace t"
  "dag_next_id (set_op_device i d t) = dag_next_id t"
  "dom (dag (set_op_device i d t)) = dom (dag t)"
  "preds_of (dag (set_op_device i d t)) = preds_of (dag t)"
  "succs_of (dag (set_op_device i d t)) = succs_of (dag t)"
  by (auto simp: set_op_device_def preds_of_def succs_of_def fun_eq_iff
      split: option.splits NodeBody.splits)

text \<open>
  The state that \<open>Create\<close> returns, in terms of the state \<open>s5\<close> in which the new nodes
  exist and no edge has been counted, and of the state \<open>s8\<close> after the two loops over
  the edges.
\<close>

lemma Create_frame:
  assumes "Create params result_sizes fn s = Inr (ret, s')"
    and "\<And>i ri. rt_info s i = Some ri \<Longrightarrow> i < dag_next_id s"
  obtains ps s5 s7 s8 g0 oi where
    "Iter ps (\<lambda>n. OnCreateEdge n (dag_next_id s + length result_sizes)) s5 = Inr s7"
    "Iter [dag_next_id s ..< dag_next_id s + length result_sizes]
       (\<lambda>n. OnCreateEdge (dag_next_id s + length result_sizes) n) s7 = Inr s8"
    "created_frame (dag_next_id s) (dag_next_id s + length result_sizes + 1) s s5"
    "created_frame (dag_next_id s) (dag_next_id s + length result_sizes + 1) s s8"
    "\<forall>i. rt_info s5 i =
       (if dag_next_id s \<le> i \<and> i \<le> dag_next_id s + length result_sizes
        then Some \<lparr>num_triggers_needed = 0, reference_count = 0, state = kReady\<rparr>
        else rt_info s i)"
    "dom g0 = dom (dag s) \<union> {dag_next_id s .. dag_next_id s + length result_sizes}"
    "\<forall>x. x \<notin> {dag_next_id s .. dag_next_id s + length result_sizes} \<longrightarrow>
       preds_of g0 x = preds_of (dag s) x \<and> succs_of g0 x = succs_of (dag s) x"
    "\<forall>x. x \<in> {dag_next_id s .. dag_next_id s + length result_sizes} \<longrightarrow>
       preds_of g0 x = [] \<and> succs_of g0 x = []"
    "dom (dag s') = dom g0"
    "preds_of (dag s') =
       preds_of (fold (\<lambda>d. add_edge (dag_next_id s + length result_sizes) d)
         [dag_next_id s ..< dag_next_id s + length result_sizes]
         (fold (\<lambda>d. add_edge d (dag_next_id s + length result_sizes)) ps g0))"
    "succs_of (dag s') =
       succs_of (fold (\<lambda>d. add_edge (dag_next_id s + length result_sizes) d)
         [dag_next_id s ..< dag_next_id s + length result_sizes]
         (fold (\<lambda>d. add_edge d (dag_next_id s + length result_sizes)) ps g0))"
    "rt_info s8 (dag_next_id s + length result_sizes) = Some oi" "state oi = kReady"
    "s' = Unlock (if num_triggers_needed oi = 0
                  then QueuePush kToRun (dag_next_id s + length result_sizes) (IncYetToFinish s8)
                  else s8)"
proof -
  obtain rs s1 ps s4 s5 s7 s8 s9 where
    n: "NewResultNodes result_sizes (current_device_id s) s = (rs, s1)"
    and o: "NewOpNode ps rs \<lparr>compute_fn = fn, op_device_id = 0\<rparr>
       (Lock ps (fold OnCreateNode rs s1)) = (dag_next_id s1, s4)"
    and s5: "s5 = OnCreateNode (dag_next_id s1)
               (set_op_device (dag_next_id s1) (current_device_id s) s4)"
    and e1: "Iter ps (\<lambda>n. OnCreateEdge n (dag_next_id s1)) s5 = Inr s7"
    and e2: "Iter rs (\<lambda>n. OnCreateEdge (dag_next_id s1) n) s7 = Inr s8"
    and p: "ProcessIfReady (dag_next_id s1) s8 = Inr s9"
    and s': "s' = Unlock s9"
    by (rule Create_steps [OF assms(1)])
  let ?k = "dag_next_id s"
  let ?op = "?k + length result_sizes"
  let ?s3 = "Lock ps (fold OnCreateNode rs s1)"
  let ?fresh = "\<lparr>num_triggers_needed = 0, reference_count = 0, state = kReady\<rparr>"
  have r1: "rs = [?k ..< ?op]" "dag_next_id s1 = ?op"
    "trace s1 = trace s @ map ANewDataNode rs" "rt_info s1 = rt_info s"
    using NewResultNodes_result [OF n] by simp_all
  note f1 = NewResultNodes_frame [OF n]
  have r3: "dispatcher_queue ?s3 = dispatcher_queue s" "dm_tasks ?s3 = dm_tasks s"
    "rt_info ?s3 i = (if i \<in> set rs then Some ?fresh else rt_info s i)"
    "pushed (trace ?s3) = pushed (trace s)" "dag ?s3 = dag s1" for i
    using fold_OnCreateNode_info [of rs s1] fold_OnCreateNode [of rs s1] f1 r1(3,4)
    by (simp_all add: Lock_def emit_def)
  have r4: "trace s4 = trace ?s3 @ [ANewOpNode ?op]" "rt_info s4 = rt_info ?s3"
    "dag_next_id s4 = ?op + 1"
    using NewOpNode_result [OF o] r1(2) by simp_all
  let ?g0 = "(dag s1)(?op \<mapsto> \<lparr>predecessors = [], successors = [],
                body = OpBody \<lparr>compute_fn = fn, op_device_id = 0\<rparr> ps rs\<rparr>)"
  let ?G = "fold (\<lambda>d. add_edge ?op d) rs (fold (\<lambda>d. add_edge d ?op) ps ?g0)"
  have q4: "dispatcher_queue s4 = dispatcher_queue ?s3" "dm_tasks s4 = dm_tasks ?s3"
    "dag s4 = ?G"
    using o r1(2) r3(5) by (auto simp: NewOpNode_def Let_def emit_def Lock_def)
  have r5: "dispatcher_queue s5 = dispatcher_queue s" "pushed (trace s5) = pushed (trace s)"
    "dm_tasks s5 = dm_tasks s" "dag_next_id s5 = ?op + 1"
    "rt_info s5 = (rt_info ?s3)(?op \<mapsto> ?fresh)"
    unfolding s5 r1(2) using r3(1,2,4) r4 q4
    by (simp_all add: OnCreateNode_def AddNode_def emit_def set_op_device_frame)
  have d5: "dom (dag s5) = dom ?G" "preds_of (dag s5) = preds_of ?G"
    "succs_of (dag s5) = succs_of ?G"
    unfolding s5 r1(2) using q4(3)
    by (simp_all add: OnCreateNode_def AddNode_def emit_def set_op_device_frame)
  have rt5: "rt_info s5 i = (if ?k \<le> i \<and> i \<le> ?op then Some ?fresh else rt_info s i)" for i
    unfolding r5(5) using r3(3) [of i] r1(1) by auto
  have f5: "created_frame ?k (?op + 1) s s5"
    unfolding created_frame_def
  proof (intro conjI allI impI)
    fix i ri
    assume "rt_info s5 i = Some ri"
    then show "i < ?op + 1"
      using assms(2) [of i] unfolding rt5 by (auto split: if_splits)
  next
    fix i
    assume "i < ?k"
    then have "rt_info s5 i = rt_info s i"
      unfolding rt5 by simp
    then show "map_option state (rt_info s5 i) = map_option state (rt_info s i)"
      "map_option num_triggers_needed (rt_info s5 i) =
         map_option num_triggers_needed (rt_info s i)"
      by simp_all
  qed (simp_all add: r5)
  have f7: "created_frame ?k (?op + 1) s s7"
  proof (rule Iter_invariant [OF e1, where P = "created_frame ?k (?op + 1) s"])
    show "created_frame ?k (?op + 1) s s5"
      by (rule f5)
  next
    fix x t t'
    assume "OnCreateEdge x (dag_next_id s1) t = Inr t'" "created_frame ?k (?op + 1) s t"
    then show "created_frame ?k (?op + 1) s t'"
      using OnCreateEdge_created_frame [of x ?op t t' ?k] r1(2) by simp
  qed
  have f8: "created_frame ?k (?op + 1) s s8"
  proof (rule Iter_invariant [OF e2, where P = "created_frame ?k (?op + 1) s"])
    show "created_frame ?k (?op + 1) s s7"
      by (rule f7)
  next
    fix x t t'
    assume "x \<in> set rs" "OnCreateEdge (dag_next_id s1) x t = Inr t'"
      "created_frame ?k (?op + 1) s t"
    then show "created_frame ?k (?op + 1) s t'"
      using OnCreateEdge_created_frame [of ?op x t t' ?k] r1(1,2) by simp
  qed
  from p obtain oi where oi: "rt_info s8 ?op = Some oi" "state oi = kReady"
    unfolding r1(2)
    by (cases "rt_info s8 ?op")
      (auto simp: ProcessIfReady_def GetState_def At_def bind_err_eq_Inr split: if_splits)
  have s9: "s9 = (if num_triggers_needed oi = 0
                  then QueuePush kToRun ?op (IncYetToFinish s8) else s8)"
    using p oi unfolding r1(2)
    by (auto simp: ProcessIfReady_def GetState_def At_def split: if_splits)
  have d7: "dag s7 = dag s5"
    by (rule Iter_invariant [OF e1, where P = "\<lambda>t. dag t = dag s5"])
      (simp_all add: OnCreateEdge_frame(1))
  have d8: "dag s8 = dag s5"
    by (rule Iter_invariant [OF e2, where P = "\<lambda>t. dag t = dag s5"])
      (simp_all add: OnCreateEdge_frame(1) d7)
  have d': "dag s' = dag s5"
    unfolding s' s9 using d8
    by (simp add: Unlock_def QueuePush_def IncYetToFinish_def emit_def)
  have g0: "dom ?g0 = dom (dag s) \<union> {?k .. ?op}"
    using f1 r1(1) by auto
  have g0a: "preds_of ?g0 x = preds_of (dag s) x \<and> succs_of ?g0 x = succs_of (dag s) x"
    if "x \<notin> {?k .. ?op}" for x
  proof -
    have "x \<noteq> ?op" "x \<notin> set rs"
      using that r1(1) by auto
    then have "?g0 x = dag s x"
      using f1 by simp
    then show ?thesis
      by (simp add: preds_of_def succs_of_def)
  qed
  have g0b: "preds_of ?g0 x = [] \<and> succs_of ?g0 x = []" if "x \<in> {?k .. ?op}" for x
  proof (cases "x = ?op")
    case True
    then show ?thesis
      by (simp add: preds_of_def succs_of_def)
  next
    case False
    then have "x \<in> set rs"
      using that r1(1) by auto
    then have "preds_of (dag s1) x = [] \<and> succs_of (dag s1) x = []"
      using f1 by blast
    then show ?thesis
      using False by (simp add: preds_of_def succs_of_def)
  qed
  have dm: "dom (dag s') = dom ?g0"
    unfolding d' d5 by (simp add: fold_add_edge_from(1) fold_add_edge_to(1))
  have e1': "Iter ps (\<lambda>n. OnCreateEdge n ?op) s5 = Inr s7"
    using e1 r1(2) by simp
  have e2': "Iter [?k ..< ?op] (\<lambda>n. OnCreateEdge ?op n) s7 = Inr s8"
    using e2 r1(1,2) by simp
  have pr: "preds_of (dag s') = preds_of (fold (\<lambda>d. add_edge ?op d) [?k ..< ?op]
              (fold (\<lambda>d. add_edge d ?op) ps ?g0))"
    and su: "succs_of (dag s') = succs_of (fold (\<lambda>d. add_edge ?op d) [?k ..< ?op]
              (fold (\<lambda>d. add_edge d ?op) ps ?g0))"
    unfolding d' d5 using r1(1) by simp_all
  have fin: "s' = Unlock (if num_triggers_needed oi = 0
                  then QueuePush kToRun ?op (IncYetToFinish s8) else s8)"
    unfolding s' s9 ..
  have rt5': "\<forall>i. rt_info s5 i = (if ?k \<le> i \<and> i \<le> ?op then Some ?fresh else rt_info s i)"
    using rt5 by blast
  have g0a': "\<forall>x. x \<notin> {?k .. ?op} \<longrightarrow>
      preds_of ?g0 x = preds_of (dag s) x \<and> succs_of ?g0 x = succs_of (dag s) x"
    using g0a by blast
  have g0b': "\<forall>x. x \<in> {?k .. ?op} \<longrightarrow> preds_of ?g0 x = [] \<and> succs_of ?g0 x = []"
    using g0b by blast
  show thesis
    by (rule that [OF e1' e2' f5 f8 rt5' g0 g0a' g0b' dm pr su oi fin])
qed

lemma Create_once:
  assumes "Create params result_sizes fn s = Inr (ret, s')" and "once_inv s"
  shows "once_inv s'"
proof -
  let ?k = "dag_next_id s"
  let ?op = "?k + length result_sizes"
  have old: "i < ?k" if "rt_info s i = Some ri" for i ri
    using once_invD(3) [OF assms(2) that] .
  obtain ps s5 s7 s8 g0 oi where
    f8: "created_frame ?k (?op + 1) s s8"
    and oi: "rt_info s8 ?op = Some oi" "state oi = kReady"
    and s': "s' = Unlock (if num_triggers_needed oi = 0
                  then QueuePush kToRun ?op (IncYetToFinish s8) else s8)"
    by (rule Create_frame [OF assms(1) old])
  let ?new = "if num_triggers_needed oi = 0 then [?op] else []"
  have a': "armed s' = armed s @ ?new"
    using f8 unfolding s' created_frame_def
    by (simp add: armed_def Unlock_def QueuePush_def IncYetToFinish_def emit_def)
  have rt': "rt_info s' = rt_info s8" and nx': "dag_next_id s' = ?op + 1"
    using f8 unfolding s' created_frame_def
    by (simp_all add: Unlock_def QueuePush_def IncYetToFinish_def emit_def)
  have lt: "i < ?k" if "i \<in> set (armed s)" for i
    using once_invD(2) [OF assms(2) that] .
  show ?thesis
  proof (rule once_invI)
    show "distinct (armed s')"
      unfolding a' using once_invD(1) [OF assms(2)] lt [of ?op] by auto
    show "i < dag_next_id s'" if "i \<in> set (armed s')" for i
      using that lt [of i] unfolding a' nx' by (auto split: if_splits)
  next
    fix i ri'
    assume r: "rt_info s' i = Some ri'"
    show "i < dag_next_id s'"
      using r f8 unfolding rt' nx' created_frame_def by blast
    show "num_triggers_needed ri' \<le> 0" if "i \<in> set (armed s')" "state ri' = kReady"
    proof (cases "i \<in> set (armed s)")
      case True
      then have "i < ?k"
        by (rule lt)
      then have m: "map_option state (rt_info s8 i) = map_option state (rt_info s i)"
        "map_option num_triggers_needed (rt_info s8 i) =
           map_option num_triggers_needed (rt_info s i)"
        using f8 unfolding created_frame_def by blast+
      from m(1) r obtain ri where ri: "rt_info s i = Some ri"
        unfolding rt' by (cases "rt_info s i") simp_all
      have "state ri = kReady" "num_triggers_needed ri = num_triggers_needed ri'"
        using m r ri that(2) unfolding rt' by simp_all
      then show ?thesis
        using once_invD(4) [OF assms(2) ri True] by simp
    next
      case False
      then have "i = ?op" "num_triggers_needed oi = 0"
        using that(1) unfolding a' by (auto split: if_splits)
      then show ?thesis
        using r oi unfolding rt' by simp
    qed
  qed
qed

text \<open>The calls from the devices and from the frontend keep \<open>once_inv\<close>.\<close>

lemma OnOperationComplete_once:
  assumes "once_inv s"
  shows "once_inv (OnOperationComplete t (s\<lparr>dm_tasks := ts\<rparr>))"
  by (rule once_inv_keep [OF assms])
    (simp_all add: armed_def OnOperationComplete_def QueuePush_def emit_def)

lemma SetExternRC_once:
  assumes "once_inv s"
  shows "once_inv (SetExternRC n v s)"
  by (rule once_inv_keep [OF assms])
    (simp_all add: armed_def SetExternRC_def split: option.splits NodeBody.splits)

lemma OnExternRCUpdate_once:
  assumes "OnExternRCUpdate n s = Inr s'" and "once_inv s"
  shows "once_inv s'"
proof -
  let ?s0 = "Lock [n] s"
  have s0: "once_inv ?s0"
    using assms(2) by (simp add: Lock_def emit_once)
  from assms(1) obtain ri where ri: "rt_info s n = Some ri"
    by (cases "rt_info s n")
      (simp_all add: OnExternRCUpdate_def Let_def GetState_def At_def Lock_def emit_def)
  have at: "At n ?s0 = Inr ri" "GetState n ?s0 = Inr (state ri)"
    using ri by (simp_all add: GetState_def At_def Lock_def emit_def)
  show ?thesis
  proof (cases "state ri")
    case kReady
    then have "s' = Unlock ?s0"
      using assms(1) at by (simp add: OnExternRCUpdate_def Let_def split: if_splits)
    then show ?thesis
      using s0 by (simp add: Unlock_def emit_once)
  next
    case kOther
    then show ?thesis
      using assms(1) at by (simp add: OnExternRCUpdate_def Let_def split: if_splits)
  next
    case kCompleted
    from assms(1) at kCompleted obtain d where d: "data_node 93 n ?s0 = Inr d"
      by (cases "data_node 93 n ?s0") (simp_all add: OnExternRCUpdate_def Let_def)
    have eq: "(if reference_count ri = 0 \<and> extern_rc d = 0
               then bind_err (RemoveNodeFromDag n (FreeDataNodeRes d ?s0))
                      (\<lambda>s1. Inr (emit (ADelete n) (Unlock (OnDeleteNode n s1))))
               else Inr (Unlock ?s0)) = Inr s'"
      using assms(1) at kCompleted d by (simp add: OnExternRCUpdate_def Let_def split: if_splits)
    show ?thesis
    proof (cases "reference_count ri = 0 \<and> extern_rc d = 0")
      case True
      with eq obtain s1 where r: "RemoveNodeFromDag n (FreeDataNodeRes d ?s0) = Inr s1"
        and e: "s' = emit (ADelete n) (Unlock (OnDeleteNode n s1))"
        by (auto simp: bind_err_eq_Inr)
      have "once_inv (OnDeleteNode n s1)"
        by (rule remove_once [OF r FreeDataNodeRes_once [OF s0]])
      then show ?thesis
        unfolding e by (simp add: Unlock_def emit_once)
    next
      case False
      with eq have "s' = Unlock ?s0" by auto
      then show ?thesis
        using s0 by (simp add: Unlock_def emit_once)
    qed
  qed
qed

lemma init_once: "once_inv init"
  by (simp add: once_inv_def armed_def init_def)

lemma step_once:
  assumes "step s s'" and "once_inv s"
  shows "once_inv s'"
  using assms
proof (induction rule: step.induct)
  case (create params result_sizes fn s ret s')
  then show ?case
    by (auto intro: Create_once)
next
  case (dispatch s task q s')
  then show ?case
    using DispatcherBody_once [of s "fst task" "snd task" q s'] by simp
next
  case (report s ts t ts')
  then show ?case
    by (simp add: OnOperationComplete_once)
next
  case (extern_rc s n v)
  then show ?case
    by (simp add: SetExternRC_once)
next
  case (extern_update n s s')
  then show ?case
    by (auto intro: OnExternRCUpdate_once)
next
  case (device s d)
  then show ?case
    by (auto intro: once_inv_keep simp: armed_def)
next
  case (waiting s t)
  then show ?case
    by (auto intro: once_inv_keep simp: armed_def)
qed

lemma reachable_once: "reachable s \<Longrightarrow> once_inv s"
  by (induction rule: reachable.induct) (auto intro: init_once step_once)

text \<open>
  In every state the scheduler can reach, the tasks pushed to the devices so far are
  for pairwise different nodes: no node is pushed twice.
\<close>

lemma pushed_at_most_once: "reachable s \<Longrightarrow> distinct (pushed (trace s))"
  using once_invD(1) [OF reachable_once, of s] by (simp add: armed_def)

section \<open>Reclaiming nodes keeps the invariants\<close>

lemma gc_trans: "gc t u \<Longrightarrow> gc s t \<Longrightarrow> gc s u"
  by (induction rule: gc.induct) (auto intro: gc.intros)

lemma gc_frame:
  assumes "gc s s'"
  shows "dispatcher_queue s' = dispatcher_queue s \<and> dm_tasks s' = dm_tasks s \<and>
         pushed (trace s') = pushed (trace s) \<and> dag_next_id s' = dag_next_id s \<and>
         (\<forall>i ri'. rt_info s' i = Some ri' \<longrightarrow>
            (\<exists>ri. rt_info s i = Some ri \<and> state ri' = state ri \<and>
               num_triggers_needed ri' = num_triggers_needed ri))"
  using assms
proof (induction rule: gc.induct)
  case (gc_refl s)
  then show ?case by simp
next
  case (gc_ref s t p pri v)
  then show ?case
    by (auto simp: emit_def set_info_def)
next
  case (gc_free s t d)
  then show ?case
    by (simp add: FreeDataNodeRes_def FreeData_def emit_def)
next
  case (gc_remove s t r t1)
  then show ?case
    using RemoveNodeFromDag_Inr(5,6,7,10,11) [OF gc_remove.hyps(2)]
    by (auto simp: OnDeleteNode_def RemoveNode_def emit_def split: if_splits)
qed

lemma release_pred_gc:
  assumes "release_pred p (td, s) = Inr (td', s')"
  shows "gc s s'"
proof -
  from assms obtain pri where pri: "rt_info s p = Some pri"
    by (cases "rt_info s p") (simp_all add: release_pred_def At_def)
  have at: "At p s = Inr pri"
    using pri by (simp add: At_def)
  from assms at obtain d where dn: "data_node 187 p s = Inr d"
    by (cases "data_node 187 p s") (simp_all add: release_pred_def)
  let ?rc = "reference_count pri - 1"
  let ?s1 = "emit (ADecRef p) (set_info p (pri\<lparr>reference_count := ?rc\<rparr>) s)"
  have s1: "gc s ?s1"
    by (rule gc_ref [OF gc_refl pri])
  have eq: "(if ?rc = 0 \<and> extern_rc d = 0
             then bind_err (RemoveNodeFromDag p (FreeDataNodeRes d ?s1))
                    (\<lambda>s2. Inr (td @ [p], OnDeleteNode p s2))
             else Inr (td, ?s1)) = Inr (td', s')"
    using assms at dn by (auto simp: release_pred_def Let_def split: if_splits)
  show ?thesis
  proof (cases "?rc = 0 \<and> extern_rc d = 0")
    case True
    with eq obtain s2 where r: "RemoveNodeFromDag p (FreeDataNodeRes d ?s1) = Inr s2"
      and e: "s' = OnDeleteNode p s2"
      by (auto simp: bind_err_eq_Inr)
    show ?thesis
      unfolding e by (rule gc_remove [OF gc_free [OF s1] r])
  next
    case False
    with eq have "s' = ?s1" by auto
    then show ?thesis using s1 by simp
  qed
qed

lemma Iter_release_pred_gc:
  "Iter ps release_pred (td, s) = Inr (td', s') \<Longrightarrow> gc s s'"
proof (induction ps arbitrary: td s)
  case Nil
  then show ?case by (simp add: gc_refl)
next
  case (Cons p ps)
  from Cons.prems obtain td1 s1 where a: "release_pred p (td, s) = Inr (td1, s1)"
    and b: "Iter ps release_pred (td1, s1) = Inr (td', s')"
    by (auto simp: bind_err_eq_Inr)
  show ?case
    by (rule gc_trans [OF Cons.IH [OF b] release_pred_gc [OF a]])
qed

lemma CompleteData_gc:
  assumes "CompleteData n node ri s = Inr (td, s')"
  shows "gc s s'"
proof -
  from assms obtain d where d: "body node = DataBody d"
    by (cases "body node") (simp_all add: CompleteData_def)
  let ?a = "if reference_count ri = 0 \<and> extern_rc d = 0
            then bind_err (RemoveNodeFromDag n (FreeDataNodeRes d s))
                   (\<lambda>t. Inr ([n], OnDeleteNode n t))
            else Inr ([], s)"
  from assms d obtain td1 t2 where a: "?a = Inr (td1, t2)"
    by (cases ?a) (auto simp: CompleteData_def)
  have t2: "gc s t2"
  proof (cases "reference_count ri = 0 \<and> extern_rc d = 0")
    case True
    with a obtain t where t: "RemoveNodeFromDag n (FreeDataNodeRes d s) = Inr t"
      and e: "t2 = OnDeleteNode n t"
      by (auto simp: bind_err_eq_Inr)
    show ?thesis
      unfolding e by (rule gc_remove [OF gc_free [OF gc_refl] t])
  next
    case False
    with a have "t2 = s" by auto
    then show ?thesis by (simp add: gc_refl)
  qed
  let ?p = "hd (predecessors node)"
  have c2: "bind_err (At ?p t2) (\<lambda>pred_ri.
              if num_triggers_needed pred_ri \<noteq> 0 then Inl (Check 209)
              else
                if reference_count pred_ri - 1 = 0
                then bind_err (RemoveNodeFromDag ?p
                       (emit (ADecRef ?p)
                          (set_info ?p (pred_ri\<lparr>reference_count := reference_count pred_ri - 1\<rparr>) t2)))
                       (\<lambda>u4. Inr (td1 @ [?p], OnDeleteNode ?p u4))
                else Inr (td1, emit (ADecRef ?p)
                       (set_info ?p (pred_ri\<lparr>reference_count := reference_count pred_ri - 1\<rparr>) t2)))
            = Inr (td, s')"
    using assms a d
    by (simp add: CompleteData_def Let_def split: if_splits cong: if_cong)
  from c2 obtain pri where pri: "rt_info t2 ?p = Some pri"
    by (cases "rt_info t2 ?p") (auto simp: At_def)
  have at: "At ?p t2 = Inr pri"
    using pri by (simp add: At_def)
  let ?u3 = "emit (ADecRef ?p) (set_info ?p (pri\<lparr>reference_count := reference_count pri - 1\<rparr>) t2)"
  have u3: "gc s ?u3"
    by (rule gc_ref [OF t2 pri])
  have c3: "(if reference_count pri - 1 = 0
             then bind_err (RemoveNodeFromDag ?p ?u3) (\<lambda>u4. Inr (td1 @ [?p], OnDeleteNode ?p u4))
             else Inr (td1, ?u3)) = Inr (td, s')"
    using c2 unfolding at by (auto split: if_splits)
  show ?thesis
  proof (cases "reference_count pri - 1 = 0")
    case True
    with c3 obtain u4 where r: "RemoveNodeFromDag ?p ?u3 = Inr u4" and e: "s' = OnDeleteNode ?p u4"
      by (auto simp: bind_err_eq_Inr)
    show ?thesis
      unfolding e by (rule gc_remove [OF u3 r])
  next
    case False
    with c3 have "s' = ?u3" by auto
    then show ?thesis using u3 by simp
  qed
qed

lemma flight_gc:
  assumes "gc s s'" and "flight_inv s"
  shows "flight_inv s'"
proof -
  note f = gc_frame [OF assms(1)]
  have i: "in_flight s' = in_flight s"
    using f by (simp add: in_flight_def)
  show ?thesis
    unfolding flight_inv_def
  proof (intro conjI allI impI)
    show "distinct (in_flight s')" "set (in_flight s') \<subseteq> set (pushed (trace s'))"
      using assms(2) f unfolding i flight_inv_def by simp_all
  next
    fix c ri'
    assume c: "c \<in> set (to_run (dispatcher_queue s')) \<union> set (in_flight s')"
      and r: "rt_info s' c = Some ri'"
    from f r obtain ri where "rt_info s c = Some ri" "state ri' = state ri"
      by blast
    then show "state ri' = kReady"
      using assms(2) c f unfolding i flight_inv_def by auto
  qed
qed

lemma dag_inv_remove:
  assumes "RemoveNodeFromDag r t = Inr t1" and "dag_inv t"
  shows "dag_inv (OnDeleteNode r t1)"
proof -
  note e = RemoveNodeFromDag_edges [OF assms(1)]
  have d: "dag (OnDeleteNode r t1) = dag t1"
    "rt_info (OnDeleteNode r t1) = (rt_info t)(r := None)"
    using RemoveNodeFromDag_Inr(5) [OF assms(1)] by (simp_all add: OnDeleteNode_frame)
  have a: "dag t i = None \<longleftrightarrow> rt_info t i = None"
    and b: "distinct (succs_of (dag t) i)"
    and c: "n \<in> set (succs_of (dag t) i) \<Longrightarrow> i \<in> set (preds_of (dag t) n)"
    and c': "p \<in> set (preds_of (dag t) i) \<Longrightarrow> i \<in> set (succs_of (dag t) p)" for i n p
    using assms(2) unfolding dag_inv_def edges_ok_def by blast+
  show ?thesis
    unfolding dag_inv_def edges_ok_def d
  proof (intro conjI allI impI)
    fix i
    show "dag t1 i = None \<longleftrightarrow> ((rt_info t)(r := None)) i = None"
      using e(1) [of i] a [of i] by simp
    show "distinct (succs_of (dag t1) i)"
      using b [of i] by (simp add: e(3) distinct_removeAll)
  next
    fix i n
    assume n: "n \<in> set (succs_of (dag t1) i)"
    then have ir: "i \<noteq> r" and ns: "n \<in> set (succs_of (dag t) i)"
      by (auto simp: e(3) split: if_splits)
    have nr: "n \<noteq> r"
    proof
      assume "n = r"
      then have "i \<in> set (preds_of (dag t) r)"
        using c [OF ns] by simp
      then show False
        using n ir \<open>n = r\<close> by (simp add: e(3))
    qed
    show "i \<in> set (preds_of (dag t1) n)"
      using c [OF ns] ir nr by (simp add: e(2))
  next
    fix i p
    assume p: "p \<in> set (preds_of (dag t1) i)"
    then have ir: "i \<noteq> r" and ps: "p \<in> set (preds_of (dag t) i)"
      by (auto simp: e(2) split: if_splits)
    have pr: "p \<noteq> r"
    proof
      assume "p = r"
      then have "i \<in> set (succs_of (dag t) r)"
        using c' [OF ps] by simp
      then show False
        using p ir \<open>p = r\<close> by (simp add: e(2))
    qed
    show "i \<in> set (succs_of (dag t1) p)"
      using c' [OF ps] ir pr by (simp add: e(3))
  qed
qed

lemma dag_gc:
  assumes "gc s s'" and "dag_inv s"
  shows "dag_inv s'"
  using assms
proof (induction rule: gc.induct)
  case (gc_refl s)
  then show ?case by simp
next
  case (gc_ref s t p pri v)
  then have "dag_inv t" by simp
  then show ?case
    using gc_ref.hyps(2) unfolding dag_inv_def
    by (auto simp: emit_def set_info_def)
next
  case (gc_free s t d)
  then show ?case
    by (simp add: dag_inv_def edges_ok_def FreeDataNodeRes_def FreeData_def emit_def)
next
  case (gc_remove s t r t1)
  show ?case
    by (rule dag_inv_remove [OF gc_remove.hyps(2)]) (simp add: gc_remove)
qed

lemma filter_removeAll_le:
  assumes "\<And>x. P' x \<Longrightarrow> P x"
  shows "length (filter P' (removeAll r xs)) \<le> length (filter P xs)"
    and "length (filter P' xs) \<le> length (filter P xs)"
  using assms by (induction xs) (auto simp: le_SucI)

lemma counted_mono:
  assumes "counted S s"
    and "\<And>n ri'. rt_info s' n = Some ri' \<Longrightarrow>
           \<exists>ri. rt_info s n = Some ri \<and> num_triggers_needed ri \<le> num_triggers_needed ri' \<and>
             length (filter (waiting s') (preds_of (dag s') n))
               \<le> length (filter (waiting s) (preds_of (dag s) n))"
  shows "counted S s'"
  unfolding counted_def
proof (intro allI impI)
  fix n ri'
  assume "rt_info s' n = Some ri'"
  from assms(2) [OF this] obtain ri where ri: "rt_info s n = Some ri"
    "num_triggers_needed ri \<le> num_triggers_needed ri'"
    "length (filter (waiting s') (preds_of (dag s') n))
       \<le> length (filter (waiting s) (preds_of (dag s) n))"
    by blast
  have "int (length (filter (waiting s) (preds_of (dag s) n))) + (if n \<in> S then 1 else 0)
          \<le> num_triggers_needed ri"
    using assms(1) ri(1) unfolding counted_def by blast
  then show "int (length (filter (waiting s') (preds_of (dag s') n))) + (if n \<in> S then 1 else 0)
          \<le> num_triggers_needed ri'"
    using ri(2,3) by simp
qed

lemma waiting_cong: "rt_info s' = rt_info s \<Longrightarrow> waiting s' = waiting s"
  by (simp add: waiting_def fun_eq_iff)

lemma counted_cong:
  "rt_info s' = rt_info s \<Longrightarrow> dag s' = dag s \<Longrightarrow> counted S s' = counted S s"
  using waiting_cong [of s' s] by (simp add: counted_def)

lemma counted_gc:
  assumes "gc s s'" and "counted S s"
  shows "counted S s'"
  using assms
proof (induction rule: gc.induct)
  case (gc_refl s)
  then show ?case by simp
next
  case (gc_ref s t p pri v)
  let ?t' = "emit (ADecRef p) (set_info p (pri\<lparr>reference_count := v\<rparr>) t)"
  have w: "waiting ?t' = waiting t"
    using gc_ref.hyps(2) by (auto simp: waiting_def emit_def set_info_def fun_eq_iff)
  show ?case
  proof (rule counted_mono [where s = t])
    show "counted S t"
      using gc_ref by simp
    fix n ri'
    assume "rt_info ?t' n = Some ri'"
    then show "\<exists>ri. rt_info t n = Some ri \<and> num_triggers_needed ri \<le> num_triggers_needed ri' \<and>
             length (filter (waiting ?t') (preds_of (dag ?t') n))
               \<le> length (filter (waiting t) (preds_of (dag t) n))"
      unfolding w using gc_ref.hyps(2)
      by (cases "n = p") (auto simp: emit_def set_info_def)
  qed
next
  case (gc_free s t d)
  then have "counted S t" by simp
  then show ?case
    using counted_cong [of "FreeDataNodeRes d t" t S] by (simp add: FreeDataNodeRes_frame)
next
  case (gc_remove s t r t1)
  note e = RemoveNodeFromDag_edges [OF gc_remove.hyps(2)]
  have d: "dag (OnDeleteNode r t1) = dag t1"
    "rt_info (OnDeleteNode r t1) = (rt_info t)(r := None)"
    using RemoveNodeFromDag_Inr(5) [OF gc_remove.hyps(2)] by (simp_all add: OnDeleteNode_frame)
  have w: "waiting (OnDeleteNode r t1) x \<Longrightarrow> waiting t x" for x
    by (simp add: waiting_def d split: if_splits)
  show ?case
  proof (rule counted_mono [where s = t])
    show "counted S t"
      using gc_remove by simp
    fix n ri'
    assume "rt_info (OnDeleteNode r t1) n = Some ri'"
    then have "n \<noteq> r" "rt_info t n = Some ri'"
      by (auto simp: d split: if_splits)
    moreover have "length (filter (waiting (OnDeleteNode r t1)) (preds_of (dag (OnDeleteNode r t1)) n))
               \<le> length (filter (waiting t) (preds_of (dag t) n))"
      unfolding d(1) e(2) using \<open>n \<noteq> r\<close> filter_removeAll_le [of "waiting (OnDeleteNode r t1)" "waiting t"] w
      by simp
    ultimately show "\<exists>ri. rt_info t n = Some ri \<and> num_triggers_needed ri \<le> num_triggers_needed ri' \<and>
             length (filter (waiting (OnDeleteNode r t1)) (preds_of (dag (OnDeleteNode r t1)) n))
               \<le> length (filter (waiting t) (preds_of (dag t) n))"
      by simp
  qed
qed

section \<open>The dispatcher keeps the invariants\<close>

lemma to_complete_simps [simp]:
  "to_complete [] = []"
  "to_complete ((kToComplete, i) # q) = i # to_complete q"
  "to_complete ((kToRun, i) # q) = to_complete q"
  "to_complete (q @ q') = to_complete q @ to_complete q'"
  by (simp_all add: to_complete_def)

lemma flight_invD:
  assumes "flight_inv s"
  shows "distinct (in_flight s)"
    and "c \<in> set (in_flight s) \<Longrightarrow> c \<in> set (pushed (trace s))"
    and "c \<in> set (to_run (dispatcher_queue s)) \<union> set (in_flight s) \<Longrightarrow>
           rt_info s c = Some ri \<Longrightarrow> state ri = kReady"
  using assms unfolding flight_inv_def by blast+

lemma flight_mono:
  assumes "flight_inv s"
    and "distinct (in_flight s')"
    and "set (in_flight s') \<subseteq> set (pushed (trace s'))"
    and "\<And>c ri'. c \<in> set (to_run (dispatcher_queue s')) \<union> set (in_flight s') \<Longrightarrow>
           rt_info s' c = Some ri' \<Longrightarrow>
           c \<in> set (to_run (dispatcher_queue s)) \<union> set (in_flight s) \<and>
           (\<exists>ri. rt_info s c = Some ri \<and> state ri' = state ri)"
  shows "flight_inv s'"
  unfolding flight_inv_def
proof (intro conjI allI impI)
  fix c ri'
  assume c: "c \<in> set (to_run (dispatcher_queue s')) \<union> set (in_flight s')"
    and r: "rt_info s' c = Some ri'"
  from assms(4) [OF c r] obtain ri where
    "c \<in> set (to_run (dispatcher_queue s)) \<union> set (in_flight s)"
    "rt_info s c = Some ri" "state ri' = state ri"
    by blast
  then show "state ri' = kReady"
    using flight_invD(3) [OF assms(1)] by simp
qed (rule assms(2), rule assms(3))

lemma flight_cong:
  assumes "flight_inv s"
    and "dispatcher_queue s' = dispatcher_queue s" and "dm_tasks s' = dm_tasks s"
    and "pushed (trace s') = pushed (trace s)" and "rt_info s' = rt_info s"
  shows "flight_inv s'"
  using assms unfolding flight_inv_def in_flight_def by simp

lemma dag_inv_cong:
  assumes "dag_inv s" and "dag s' = dag s"
    and "\<And>i. rt_info s' i = None \<longleftrightarrow> rt_info s i = None"
  shows "dag_inv s'"
  using assms unfolding dag_inv_def edges_ok_def by simp

text \<open>The node of a popped completion event has no other pending event.\<close>

lemma popped_not_pending:
  assumes "once_inv s" and "flight_inv s" and "dispatcher_queue s = (ty, n) # q"
  shows "n \<notin> set (to_run q) \<union> set (map task_id (dm_tasks s) @ to_complete q)"
proof (cases ty)
  case kToRun
  then have a: "armed s = pushed (trace s) @ n # to_run q"
    and f: "in_flight s = map task_id (dm_tasks s) @ to_complete q"
    using assms(3) by (simp_all add: armed_def in_flight_def)
  have "n \<notin> set (to_run q)" "n \<notin> set (pushed (trace s))"
    using once_invD(1) [OF assms(1)] unfolding a by auto
  then show ?thesis
    using flight_invD(2) [OF assms(2), of n] unfolding f by auto
next
  case kToComplete
  then have a: "armed s = pushed (trace s) @ to_run q"
    and f: "in_flight s = map task_id (dm_tasks s) @ n # to_complete q"
    using assms(3) by (simp_all add: armed_def in_flight_def)
  have "n \<in> set (pushed (trace s))"
    using flight_invD(2) [OF assms(2), of n] unfolding f by simp
  then have "n \<notin> set (to_run q)"
    using once_invD(1) [OF assms(1)] unfolding a by auto
  then show ?thesis
    using flight_invD(1) [OF assms(2)] unfolding f by auto
qed

lemma TriggerSucc_cases:
  assumes "TriggerSucc c s = Inr s'"
  obtains ri where "rt_info s c = Some ri"
    "s' = (if state ri = kReady \<and> num_triggers_needed ri - 1 = 0
           then QueuePush kToRun c (IncYetToFinish
                  (emit (ADecTriggers c)
                     (set_info c (ri\<lparr>num_triggers_needed := num_triggers_needed ri - 1\<rparr>) s)))
           else emit (ADecTriggers c)
                  (set_info c (ri\<lparr>num_triggers_needed := num_triggers_needed ri - 1\<rparr>) s))"
proof -
  from assms obtain ri where ri: "rt_info s c = Some ri"
    by (cases "rt_info s c") (simp_all add: TriggerSucc_def At_def)
  then show thesis
    using that [of ri] assms by (auto simp: TriggerSucc_def At_def Let_def split: if_splits)
qed

lemma TriggerSucc_flight:
  assumes "TriggerSucc c s = Inr s'" and "flight_inv s"
  shows "flight_inv s'"
proof -
  obtain ri where ri: "rt_info s c = Some ri"
    and s': "s' = (if state ri = kReady \<and> num_triggers_needed ri - 1 = 0
           then QueuePush kToRun c (IncYetToFinish
                  (emit (ADecTriggers c)
                     (set_info c (ri\<lparr>num_triggers_needed := num_triggers_needed ri - 1\<rparr>) s)))
           else emit (ADecTriggers c)
                  (set_info c (ri\<lparr>num_triggers_needed := num_triggers_needed ri - 1\<rparr>) s))"
    by (rule TriggerSucc_cases [OF assms(1)])
  have i: "in_flight s' = in_flight s" "pushed (trace s') = pushed (trace s)"
    "rt_info s' = (rt_info s)(c \<mapsto> ri\<lparr>num_triggers_needed := num_triggers_needed ri - 1\<rparr>)"
    unfolding s'
    by (simp_all add: in_flight_def QueuePush_def IncYetToFinish_def emit_def set_info_def)
  have q: "set (to_run (dispatcher_queue s')) \<subseteq> set (to_run (dispatcher_queue s)) \<union>
             (if state ri = kReady then {c} else {})"
    unfolding s' by (auto simp: QueuePush_def IncYetToFinish_def emit_def set_info_def)
  show ?thesis
    unfolding flight_inv_def i
  proof (intro conjI allI impI)
    show "distinct (in_flight s)" "set (in_flight s) \<subseteq> set (pushed (trace s))"
      using assms(2) unfolding flight_inv_def by simp_all
  next
    fix x ri'
    assume x: "x \<in> set (to_run (dispatcher_queue s')) \<union> set (in_flight s)"
      and r: "((rt_info s)(c \<mapsto> ri\<lparr>num_triggers_needed := num_triggers_needed ri - 1\<rparr>)) x = Some ri'"
    show "state ri' = kReady"
    proof (cases "x = c")
      case True
      then have e: "state ri' = state ri"
        using r by auto
      show ?thesis
      proof (cases "state ri = kReady")
        case True
        then show ?thesis using e by simp
      next
        case False
        then have "c \<in> set (to_run (dispatcher_queue s)) \<union> set (in_flight s)"
          using x q \<open>x = c\<close> by auto
        then show ?thesis
          using flight_invD(3) [OF assms(2) _ ri] e by simp
      qed
    next
      case False
      then have "rt_info s x = Some ri'"
        "x \<in> set (to_run (dispatcher_queue s)) \<union> set (in_flight s)"
        using r x q by (auto split: if_splits)
      then show ?thesis
        using flight_invD(3) [OF assms(2)] by blast
    qed
  qed
qed

lemma TriggerSucc_dag:
  assumes "TriggerSucc c s = Inr s'" and "dag_inv s"
  shows "dag_inv s'"
proof -
  obtain ri where ri: "rt_info s c = Some ri"
    and s': "s' = (if state ri = kReady \<and> num_triggers_needed ri - 1 = 0
           then QueuePush kToRun c (IncYetToFinish
                  (emit (ADecTriggers c)
                     (set_info c (ri\<lparr>num_triggers_needed := num_triggers_needed ri - 1\<rparr>) s)))
           else emit (ADecTriggers c)
                  (set_info c (ri\<lparr>num_triggers_needed := num_triggers_needed ri - 1\<rparr>) s))"
    by (rule TriggerSucc_cases [OF assms(1)])
  show ?thesis
  proof (rule dag_inv_cong [OF assms(2)])
    show "dag s' = dag s"
      unfolding s' by (simp add: QueuePush_def IncYetToFinish_def emit_def set_info_def)
    show "rt_info s' i = None \<longleftrightarrow> rt_info s i = None" for i
      unfolding s' using ri
      by (simp add: QueuePush_def IncYetToFinish_def emit_def set_info_def)
  qed
qed

lemma TriggerSucc_counted:
  assumes "TriggerSucc c s = Inr s'" and "counted S s" and "c \<in> S"
  shows "counted (S - {c}) s'"
proof -
  obtain ri where ri: "rt_info s c = Some ri"
    and s': "s' = (if state ri = kReady \<and> num_triggers_needed ri - 1 = 0
           then QueuePush kToRun c (IncYetToFinish
                  (emit (ADecTriggers c)
                     (set_info c (ri\<lparr>num_triggers_needed := num_triggers_needed ri - 1\<rparr>) s)))
           else emit (ADecTriggers c)
                  (set_info c (ri\<lparr>num_triggers_needed := num_triggers_needed ri - 1\<rparr>) s))"
    by (rule TriggerSucc_cases [OF assms(1)])
  have d: "dag s' = dag s"
    and r: "rt_info s' = (rt_info s)(c \<mapsto> ri\<lparr>num_triggers_needed := num_triggers_needed ri - 1\<rparr>)"
    unfolding s' by (simp_all add: QueuePush_def IncYetToFinish_def emit_def set_info_def)
  have w: "waiting s' = waiting s"
    unfolding waiting_def fun_eq_iff r using ri by simp
  show ?thesis
    unfolding counted_def d w
  proof (intro allI impI)
    fix n ri'
    assume n: "rt_info s' n = Some ri'"
    show "int (length (filter (waiting s) (preds_of (dag s) n))) + (if n \<in> S - {c} then 1 else 0)
            \<le> num_triggers_needed ri'"
    proof (cases "n = c")
      case True
      then have "num_triggers_needed ri' = num_triggers_needed ri - 1"
        using n unfolding r by auto
      moreover have "int (length (filter (waiting s) (preds_of (dag s) c))) + 1
          \<le> num_triggers_needed ri"
        using assms(2,3) ri unfolding counted_def by fastforce
      ultimately show ?thesis
        using True by simp
    next
      case False
      then have "rt_info s n = Some ri'"
        using n unfolding r by simp
      then show ?thesis
        using assms(2) False unfolding counted_def by fastforce
    qed
  qed
qed

lemma Iter_TriggerSucc_counted:
  "Iter cs TriggerSucc s = Inr s' \<Longrightarrow> distinct cs \<Longrightarrow> counted (set cs) s \<Longrightarrow> counted {} s'"
proof (induction cs arbitrary: s)
  case Nil
  then show ?case by simp
next
  case (Cons c cs)
  from Cons.prems(1) obtain t where t: "TriggerSucc c s = Inr t" and r: "Iter cs TriggerSucc t = Inr s'"
    by (auto simp: bind_err_eq_Inr)
  have "counted (set (c # cs) - {c}) t"
    by (rule TriggerSucc_counted [OF t Cons.prems(3)]) simp
  moreover have "set (c # cs) - {c} = set cs"
    using Cons.prems(2) by auto
  ultimately show ?case
    using Cons.IH [OF r] Cons.prems(2) by simp
qed

lemma filter_drop_le:
  "int (length (filter (\<lambda>y. P y \<and> y \<noteq> n) xs)) + (if n \<in> set xs \<and> P n then 1 else 0)
     \<le> int (length (filter P xs))"
  by (induction xs) (auto split: if_splits)

lemma set_completed_counted:
  assumes "counted {} s" and "rt_info s n = Some ri" and "state ri \<noteq> kCompleted"
    and "\<And>x. x \<in> S \<Longrightarrow> n \<in> set (preds_of (dag s) x)"
  shows "counted S (emit (ASetCompleted n) (set_info n (ri\<lparr>state := kCompleted\<rparr>) (Lock [n] s)))"
proof -
  let ?t = "emit (ASetCompleted n) (set_info n (ri\<lparr>state := kCompleted\<rparr>) (Lock [n] s))"
  have d: "dag ?t = dag s" and r: "rt_info ?t = (rt_info s)(n \<mapsto> ri\<lparr>state := kCompleted\<rparr>)"
    by (simp_all add: emit_def set_info_def Lock_def)
  have w: "waiting ?t = (\<lambda>y. waiting s y \<and> y \<noteq> n)"
    unfolding waiting_def fun_eq_iff r by (auto split: option.splits)
  have wn: "waiting s n"
    using assms(2,3) by (simp add: waiting_def)
  show ?thesis
    unfolding counted_def d w
  proof (intro allI impI)
    fix x ri'
    assume x: "rt_info ?t x = Some ri'"
    then obtain ri0 where ri0: "rt_info s x = Some ri0"
      "num_triggers_needed ri' = num_triggers_needed ri0"
      using assms(2) unfolding r by (cases "x = n") auto
    have "int (length (filter (waiting s) (preds_of (dag s) x))) \<le> num_triggers_needed ri0"
      using assms(1) ri0(1) unfolding counted_def by fastforce
    moreover have "x \<in> S \<Longrightarrow> n \<in> set (preds_of (dag s) x) \<and> waiting s n"
      using assms(4) wn by simp
    ultimately show "int (length (filter (\<lambda>y. waiting s y \<and> y \<noteq> n) (preds_of (dag s) x)))
        + (if x \<in> S then 1 else 0) \<le> num_triggers_needed ri'"
      using filter_drop_le [of "waiting s" n "preds_of (dag s) x"] ri0(2)
      by (auto split: if_splits)
  qed
qed

lemma Iter_TriggerSucc_flight:
  "Iter cs TriggerSucc s = Inr s' \<Longrightarrow> flight_inv s \<Longrightarrow> flight_inv s'"
  by (erule Iter_invariant [where P = flight_inv]) (auto intro: TriggerSucc_flight)

lemma Iter_TriggerSucc_dag:
  "Iter cs TriggerSucc s = Inr s' \<Longrightarrow> dag_inv s \<Longrightarrow> dag_inv s'"
  by (erule Iter_invariant [where P = dag_inv]) (auto intro: TriggerSucc_dag)

lemma finish_body_queue:
  "dispatcher_queue (finish_body n td s) = dispatcher_queue s"
  "pushed (trace (finish_body n td s)) = pushed (trace s)"
proof -
  have "dispatcher_queue (DeleteAll td t) = dispatcher_queue t" for t
    by (induction td arbitrary: t) (simp_all add: DeleteAll_def emit_def)
  then show "dispatcher_queue (finish_body n td s) = dispatcher_queue s"
    by (simp add: finish_body_def Unlock_def NotifyIfDone_def DecYetToFinish_def emit_def)
  show "pushed (trace (finish_body n td s)) = pushed (trace s)"
    by (simp add: finish_body_def DeleteAll_frame(3) Unlock_def NotifyIfDone_def
        DecYetToFinish_def emit_def)
qed

lemma sched_invD:
  assumes "sched_inv s"
  shows "once_inv s" "flight_inv s" "dag_inv s" "counted {} s"
  using assms by (simp_all add: sched_inv_def)

text \<open>
  When the dispatcher finds a \<open>kToRun\<close> event for a node at the head of the queue, the
  trigger count of the node is 0 and each of its predecessors is \<open>kCompleted\<close>.
\<close>

lemma head_ready:
  assumes "sched_inv s" and "dispatcher_queue s = (kToRun, n) # q" and "dag s n = Some nd"
  shows "\<exists>ri. rt_info s n = Some ri \<and> state ri = kReady \<and> num_triggers_needed ri = 0"
    and "p \<in> set (predecessors nd) \<Longrightarrow> map_option state (rt_info s p) = Some kCompleted"
proof -
  note i = sched_invD [OF assms(1)]
  have d: "dag s x = None \<longleftrightarrow> rt_info s x = None" for x
    using i(3) unfolding dag_inv_def edges_ok_def by blast
  from d [of n] assms(3) obtain ri where ri: "rt_info s n = Some ri"
    by (cases "rt_info s n") simp_all
  have a: "n \<in> set (armed s)" "n \<in> set (to_run (dispatcher_queue s))"
    using assms(2) by (simp_all add: armed_def)
  have r: "state ri = kReady"
    using flight_invD(3) [OF i(2) _ ri] a(2) by simp
  have t: "num_triggers_needed ri \<le> 0"
    using once_invD(4) [OF i(1) ri a(1) r] .
  have c: "int (length (filter (waiting s) (preds_of (dag s) n))) \<le> num_triggers_needed ri"
    using i(4) ri unfolding counted_def by fastforce
  show "\<exists>ri. rt_info s n = Some ri \<and> state ri = kReady \<and> num_triggers_needed ri = 0"
    using ri r t c by simp
  show "map_option state (rt_info s p) = Some kCompleted" if p: "p \<in> set (predecessors nd)"
  proof -
    have pp: "p \<in> set (preds_of (dag s) n)"
      using p assms(3) by (simp add: preds_of_def)
    have "length (filter (waiting s) (preds_of (dag s) n)) = 0"
      using c t by linarith
    then have "filter (waiting s) (preds_of (dag s) n) = []"
      by (rule length_0_conv [THEN iffD1])
    then have nw: "\<not> waiting s p"
      using pp by (simp add: filter_empty_conv)
    have "n \<in> set (succs_of (dag s) p)"
      using i(3) pp unfolding dag_inv_def edges_ok_def by blast
    then have "dag s p \<noteq> None"
      by (cases "dag s p") (simp_all add: succs_of_def)
    then obtain pri where "rt_info s p = Some pri"
      using d [of p] by (cases "rt_info s p") simp_all
    then show ?thesis
      using nw by (simp add: waiting_def)
  qed
qed

lemma DispatcherBody_inv:
  assumes "dispatcher_queue s = (ty, n) # q"
    and "DispatcherBody (ty, n) (s\<lparr>dispatcher_queue := q\<rparr>) = Inr s'"
    and "sched_inv s"
  shows "sched_inv s'"
proof -
  note i = sched_invD [OF assms(3)]
  let ?s0 = "s\<lparr>dispatcher_queue := q\<rparr>"
  have o': "once_inv s'"
    by (rule DispatcherBody_once [OF assms(1,2) i(1)])
  from assms(2) obtain node where node: "dag s n = Some node"
    by (cases "dag s n") (simp_all add: DispatcherBody_def GetNode_def)
  from assms(2) node obtain ri where ri: "rt_info s n = Some ri"
    by (cases "rt_info s n")
      (simp_all add: DispatcherBody_def GetNode_def At_def Lock_def emit_def)
  have np: "n \<notin> set (to_run q) \<union> set (map task_id (dm_tasks s) @ to_complete q)"
    by (rule popped_not_pending [OF i(1,2) assms(1)])
  have pend: "n \<in> set (to_run (dispatcher_queue s)) \<union> set (in_flight s)"
    using assms(1) by (cases ty) (simp_all add: in_flight_def)
  have rdy: "state ri = kReady"
    using flight_invD(3) [OF i(2) pend ri] .
  have sub: "set (to_run q) \<subseteq> set (to_run (dispatcher_queue s))"
    "set (to_complete q) \<subseteq> set (to_complete (dispatcher_queue s))"
    using assms(1) by (cases ty; auto)+
  have f0d: "distinct (map task_id (dm_tasks s) @ to_complete q)"
    using flight_invD(1) [OF i(2)] assms(1) by (cases ty) (auto simp: in_flight_def)
  have f0: "flight_inv ?s0"
  proof (rule flight_mono [OF i(2)])
    show "distinct (in_flight ?s0)"
      using f0d by (simp add: in_flight_def)
    show "set (in_flight ?s0) \<subseteq> set (pushed (trace ?s0))"
      using flight_invD(2) [OF i(2)] sub(2) by (auto simp: in_flight_def)
    fix c ri'
    assume "c \<in> set (to_run (dispatcher_queue ?s0)) \<union> set (in_flight ?s0)"
      "rt_info ?s0 c = Some ri'"
    then show "c \<in> set (to_run (dispatcher_queue s)) \<union> set (in_flight s) \<and>
               (\<exists>ri. rt_info s c = Some ri \<and> state ri' = state ri)"
      using sub by (auto simp: in_flight_def)
  qed
  show ?thesis
  proof (cases "ty = kToRun \<and> Type node = kOpNode")
    case True
    then obtain p ins outs where b: "body node = OpBody p ins outs"
      by (cases "body node") (simp_all add: Type_def)
    have at: "At n (Lock [n] ?s0) = Inr ri"
      using ri by (simp add: At_def Lock_def emit_def)
    from assms(2) node at True b obtain tin tout where
      s': "s' = Unlock (PushTask (op_device_id p)
                 \<lparr>task_inputs = tin, task_outputs = tout, task_op = p, task_id = n\<rparr>
                 (Lock [n] ?s0))"
      by (auto simp: DispatcherBody_def GetNode_def Let_def bind_err_eq_Inr)
    have fr: "dag s' = dag s" "rt_info s' = rt_info s" "dispatcher_queue s' = q"
      "pushed (trace s') = pushed (trace s) @ [n]"
      "in_flight s' = map task_id (dm_tasks s) @ n # to_complete q"
      unfolding s' by (simp_all add: in_flight_def Unlock_def PushTask_def Lock_def emit_def)
    have f': "flight_inv s'"
    proof (rule flight_mono [OF i(2)])
      show "distinct (in_flight s')"
        using f0d np unfolding fr by auto
      show "set (in_flight s') \<subseteq> set (pushed (trace s'))"
        using flight_invD(2) [OF i(2)] sub(2) unfolding fr by (auto simp: in_flight_def)
      fix c ri'
      assume "c \<in> set (to_run (dispatcher_queue s')) \<union> set (in_flight s')"
        "rt_info s' c = Some ri'"
      then show "c \<in> set (to_run (dispatcher_queue s)) \<union> set (in_flight s) \<and>
               (\<exists>ri. rt_info s c = Some ri \<and> state ri' = state ri)"
        using sub pend unfolding fr by (auto simp: in_flight_def)
    qed
    have d': "dag_inv s'"
      by (rule dag_inv_cong [OF i(3)]) (simp_all add: fr)
    have c': "counted {} s'"
      using counted_cong [of s' s "{}"] i(4) by (simp add: fr)
    show ?thesis
      using o' f' d' c' by (simp add: sched_inv_def)
  next
    case False
    then have c: "ty = kToComplete \<or> Type node = kDataNode"
      by (cases ty; cases "Type node") simp_all
    have node0: "dag ?s0 n = Some node"
      using node by simp
    obtain ri0 td s2 s3 where ri0: "rt_info ?s0 n = Some ri0"
      and comp: "(if Type node = kOpNode
          then CompleteOp node (ri0\<lparr>state := kCompleted\<rparr>)
                 (emit (ASetCompleted n) (set_info n (ri0\<lparr>state := kCompleted\<rparr>) (Lock [n] ?s0)))
          else CompleteData n node (ri0\<lparr>state := kCompleted\<rparr>)
                 (emit (ASetCompleted n) (set_info n (ri0\<lparr>state := kCompleted\<rparr>) (Lock [n] ?s0))))
           = Inr (td, s2)"
      and it: "Iter (successors node) TriggerSucc s2 = Inr s3"
      and s': "s' = finish_body n td s3"
      by (rule DispatcherBody_completion [OF assms(2) node0 c])
    have e: "ri0 = ri"
      using ri0 ri by simp
    let ?s1 = "emit (ASetCompleted n) (set_info n (ri\<lparr>state := kCompleted\<rparr>) (Lock [n] ?s0))"
    have g: "gc ?s1 s2"
    proof (cases "Type node = kOpNode")
      case True
      with comp have "Iter (predecessors node) release_pred ([], ?s1) = Inr (td, s2)"
        unfolding e by (simp add: CompleteOp_def split: if_splits)
      then show ?thesis
        by (rule Iter_release_pred_gc)
    next
      case False
      with comp have "CompleteData n node (ri\<lparr>state := kCompleted\<rparr>) ?s1 = Inr (td, s2)"
        unfolding e by simp
      then show ?thesis
        by (rule CompleteData_gc)
    qed
    have fr1: "dag ?s1 = dag s" "rt_info ?s1 = (rt_info s)(n \<mapsto> ri\<lparr>state := kCompleted\<rparr>)"
      "dispatcher_queue ?s1 = q" "in_flight ?s1 = in_flight ?s0"
      "pushed (trace ?s1) = pushed (trace s)"
      by (simp_all add: in_flight_def emit_def set_info_def Lock_def)
    have f1: "flight_inv ?s1"
    proof (rule flight_mono [OF f0])
      show "distinct (in_flight ?s1)" "set (in_flight ?s1) \<subseteq> set (pushed (trace ?s1))"
        using f0 unfolding fr1 flight_inv_def by simp_all
      fix c ri'
      assume "c \<in> set (to_run (dispatcher_queue ?s1)) \<union> set (in_flight ?s1)"
        "rt_info ?s1 c = Some ri'"
      then show "c \<in> set (to_run (dispatcher_queue ?s0)) \<union> set (in_flight ?s0) \<and>
               (\<exists>ri. rt_info ?s0 c = Some ri \<and> state ri' = state ri)"
        using np unfolding fr1 by (cases "c = n") (auto simp: in_flight_def)
    qed
    have f': "flight_inv s'"
      using flight_cong [of s3 s'] Iter_TriggerSucc_flight [OF it flight_gc [OF g f1]]
      unfolding s' by (simp add: finish_body_queue finish_body_frame)
    have d1: "dag_inv ?s1"
      by (rule dag_inv_cong [OF i(3)]) (use ri in \<open>simp_all add: fr1\<close>)
    have d': "dag_inv s'"
      using dag_inv_cong [of s3 s'] Iter_TriggerSucc_dag [OF it dag_gc [OF g d1]]
      unfolding s' by (simp add: finish_body_frame)
    have sn: "succs_of (dag s) n = successors node"
      using node by (simp add: succs_of_def)
    have c0: "counted {} ?s0"
      using counted_cong [of ?s0 s "{}"] i(4) by simp
    have "counted (set (successors node))
            (emit (ASetCompleted n) (set_info n (ri\<lparr>state := kCompleted\<rparr>) (Lock [n] ?s0)))"
    proof (rule set_completed_counted [OF c0])
      show "rt_info ?s0 n = Some ri"
        using ri by simp
      show "state ri \<noteq> kCompleted"
        using rdy by simp
      show "n \<in> set (preds_of (dag ?s0) x)" if "x \<in> set (successors node)" for x
        using i(3) that sn unfolding dag_inv_def edges_ok_def by simp
    qed
    then have c2: "counted (set (successors node)) s2"
      by (rule counted_gc [OF g])
    have "distinct (successors node)"
      using i(3) sn unfolding dag_inv_def edges_ok_def by metis
    then have "counted {} s3"
      using Iter_TriggerSucc_counted [OF it] c2 by simp
    then have c': "counted {} s'"
      using counted_cong [of s' s3 "{}"] unfolding s' by (simp add: finish_body_frame)
    show ?thesis
      using o' f' d' c' by (simp add: sched_inv_def)
  qed
qed

section \<open>Create keeps the invariants\<close>

lemma counted_alt:
  "counted S s \<longleftrightarrow>
     (\<forall>n. rt_info s n \<noteq> None \<longrightarrow>
        int (length (filter (waiting s) (preds_of (dag s) n))) + (if n \<in> S then 1 else 0)
          \<le> triggers_of s n)"
  unfolding counted_def triggers_of_def by (auto split: option.splits)

text \<open>What one call of \<open>OnCreateEdge\<close> does to the trigger counts.\<close>

lemma OnCreateEdge_effect:
  assumes "OnCreateEdge u v s = Inr t"
  shows "waiting t = waiting s" and "rt_info s u \<noteq> None"
    and "rt_info t y = None \<longleftrightarrow> rt_info s y = None"
    and "triggers_of t y = triggers_of s y + (if y = v \<and> waiting s u then 1 else 0)"
proof -
  from assms obtain fi where fi: "rt_info s u = Some fi"
    by (cases "rt_info s u")
      (auto simp: OnCreateEdge_def GetState_def At_def bind_err_eq_Inr split: if_splits)
  let ?t1 = "emit (AIncRef u) (set_info u (fi\<lparr>reference_count := reference_count fi + 1\<rparr>) s)"
  have w1: "waiting ?t1 = waiting s" "triggers_of ?t1 y = triggers_of s y"
    "rt_info ?t1 y = None \<longleftrightarrow> rt_info s y = None"
    using fi by (auto simp: waiting_def triggers_of_def emit_def set_info_def fun_eq_iff)
  have wu: "waiting s u \<longleftrightarrow> state fi \<noteq> kCompleted"
    using fi by (simp add: waiting_def)
  show "rt_info s u \<noteq> None"
    using fi by simp
  have "waiting t = waiting s \<and> (rt_info t y = None \<longleftrightarrow> rt_info s y = None) \<and>
        triggers_of t y = triggers_of s y + (if y = v \<and> waiting s u then 1 else 0)"
  proof (cases "state fi = kCompleted")
    case True
    then have "t = ?t1"
      using assms fi
      by (auto simp: OnCreateEdge_def GetState_def At_def Let_def emit_def set_info_def
          bind_err_eq_Inr split: if_splits option.splits)
    then show ?thesis
      using w1 wu True by simp
  next
    case False
    from assms fi False obtain ti where ti: "rt_info ?t1 v = Some ti"
      and t: "t = emit (AIncTriggers v)
                 (set_info v (ti\<lparr>num_triggers_needed := num_triggers_needed ti + 1\<rparr>) ?t1)"
      by (auto simp: OnCreateEdge_def GetState_def At_def Let_def emit_def set_info_def
          bind_err_eq_Inr split: if_splits option.splits)
    have "waiting t = waiting ?t1"
      unfolding t using ti by (auto simp: waiting_def emit_def set_info_def fun_eq_iff)
    moreover have "rt_info t y = None \<longleftrightarrow> rt_info ?t1 y = None"
      unfolding t using ti by (auto simp: emit_def set_info_def)
    moreover have "triggers_of t y = triggers_of ?t1 y + (if y = v then 1 else 0)"
      unfolding t using ti by (auto simp: triggers_of_def emit_def set_info_def)
    ultimately show ?thesis
      using w1 wu False by simp
  qed
  then show "waiting t = waiting s" "rt_info t y = None \<longleftrightarrow> rt_info s y = None"
    "triggers_of t y = triggers_of s y + (if y = v \<and> waiting s u then 1 else 0)"
    by simp_all
qed

lemma Iter_OnCreateEdge_from_effect:
  "Iter ps (\<lambda>n. OnCreateEdge n v) s = Inr t \<Longrightarrow>
     waiting t = waiting s \<and> (\<forall>p \<in> set ps. rt_info s p \<noteq> None) \<and>
     (\<forall>y. rt_info t y = None \<longleftrightarrow> rt_info s y = None) \<and>
     (\<forall>y. triggers_of t y =
        triggers_of s y + (if y = v then int (length (filter (waiting s) ps)) else 0))"
proof (induction ps arbitrary: s)
  case Nil
  then show ?case by simp
next
  case (Cons p ps)
  from Cons.prems obtain s1 where a: "OnCreateEdge p v s = Inr s1"
    and b: "Iter ps (\<lambda>n. OnCreateEdge n v) s1 = Inr t"
    by (auto simp: bind_err_eq_Inr)
  note e = OnCreateEdge_effect [OF a]
  note ih = Cons.IH [OF b]
  show ?case
  proof (intro conjI allI ballI)
    show "waiting t = waiting s"
      using ih e(1) by simp
    show "rt_info s x \<noteq> None" if "x \<in> set (p # ps)" for x
      using that ih e(2) e(3) [of x] by auto
    show "rt_info t y = None \<longleftrightarrow> rt_info s y = None" for y
      using ih e(3) [of y] by simp
    show "triggers_of t y =
        triggers_of s y + (if y = v then int (length (filter (waiting s) (p # ps))) else 0)" for y
      using ih e(1) e(4) [of y] by simp
  qed
qed

lemma Iter_OnCreateEdge_to_effect:
  "Iter rs (\<lambda>n. OnCreateEdge u n) s = Inr t \<Longrightarrow>
     waiting t = waiting s \<and>
     (\<forall>y. rt_info t y = None \<longleftrightarrow> rt_info s y = None) \<and>
     (\<forall>y. triggers_of s y + (if y \<in> set rs \<and> waiting s u then 1 else 0) \<le> triggers_of t y)"
proof (induction rs arbitrary: s)
  case Nil
  then show ?case by simp
next
  case (Cons r rs)
  from Cons.prems obtain s1 where a: "OnCreateEdge u r s = Inr s1"
    and b: "Iter rs (\<lambda>n. OnCreateEdge u n) s1 = Inr t"
    by (auto simp: bind_err_eq_Inr)
  note e = OnCreateEdge_effect [OF a]
  note ih = Cons.IH [OF b]
  show ?case
  proof (intro conjI allI)
    show "waiting t = waiting s"
      using ih e(1) by simp
    show "rt_info t y = None \<longleftrightarrow> rt_info s y = None" for y
      using ih e(3) [of y] by simp
    show "triggers_of s y + (if y \<in> set (r # rs) \<and> waiting s u then 1 else 0) \<le> triggers_of t y"
      for y
    proof -
      have "triggers_of s1 y + (if y \<in> set rs \<and> waiting s1 u then 1 else 0) \<le> triggers_of t y"
        using ih by blast
      then show ?thesis
        using e(1) e(4) [of y] by (auto split: if_splits)
    qed
  qed
qed

lemma Create_inv:
  assumes "Create params result_sizes fn s = Inr (ret, s')" and "sched_inv s"
  shows "sched_inv s'"
proof -
  note i = sched_invD [OF assms(2)]
  let ?k = "dag_next_id s"
  let ?op = "?k + length result_sizes"
  let ?rs = "[?k ..< ?op]"
  let ?fresh = "\<lparr>num_triggers_needed = 0, reference_count = 0, state = kReady\<rparr>"
  have old: "i < ?k" if "rt_info s i = Some ri" for i ri
    using once_invD(3) [OF i(1) that] .
  have dm: "dag s x = None \<longleftrightarrow> rt_info s x = None" for x
    using i(3) unfolding dag_inv_def by blast
  have new: "rt_info s x = None" "dag s x = None" if "?k \<le> x" for x
  proof -
    show "rt_info s x = None"
      using old [of x] that by (cases "rt_info s x") auto
    then show "dag s x = None"
      using dm by simp
  qed
  obtain ps s5 s7 s8 g0 oi where
    e1: "Iter ps (\<lambda>n. OnCreateEdge n ?op) s5 = Inr s7"
    and e2: "Iter ?rs (\<lambda>n. OnCreateEdge ?op n) s7 = Inr s8"
    and f5: "created_frame ?k (?op + 1) s s5"
    and f8: "created_frame ?k (?op + 1) s s8"
    and rt5': "\<forall>i. rt_info s5 i =
       (if ?k \<le> i \<and> i \<le> ?op then Some ?fresh else rt_info s i)"
    and g0: "dom g0 = dom (dag s) \<union> {?k .. ?op}"
    and g0a': "\<forall>x. x \<notin> {?k .. ?op} \<longrightarrow>
       preds_of g0 x = preds_of (dag s) x \<and> succs_of g0 x = succs_of (dag s) x"
    and g0b': "\<forall>x. x \<in> {?k .. ?op} \<longrightarrow> preds_of g0 x = [] \<and> succs_of g0 x = []"
    and dd: "dom (dag s') = dom g0"
    and pr: "preds_of (dag s') =
       preds_of (fold (\<lambda>d. add_edge ?op d) ?rs (fold (\<lambda>d. add_edge d ?op) ps g0))"
    and su: "succs_of (dag s') =
       succs_of (fold (\<lambda>d. add_edge ?op d) ?rs (fold (\<lambda>d. add_edge d ?op) ps g0))"
    and oi: "rt_info s8 ?op = Some oi" "state oi = kReady"
    and s': "s' = Unlock (if num_triggers_needed oi = 0
                  then QueuePush kToRun ?op (IncYetToFinish s8) else s8)"
    by (rule Create_frame [OF assms(1) old])
  have rt5: "rt_info s5 i = (if ?k \<le> i \<and> i \<le> ?op then Some ?fresh else rt_info s i)" for i
    using rt5' by blast
  have g0a: "preds_of g0 x = preds_of (dag s) x \<and> succs_of g0 x = succs_of (dag s) x"
    if "x \<notin> {?k .. ?op}" for x
    using g0a' that by blast
  have g0b: "preds_of g0 x = [] \<and> succs_of g0 x = []" if "x \<in> {?k .. ?op}" for x
    using g0b' that by blast
  have o': "once_inv s'"
    by (rule Create_once [OF assms(1) i(1)])
  note x1 = Iter_OnCreateEdge_from_effect [OF e1]
  note x2 = Iter_OnCreateEdge_to_effect [OF e2]
  have rt': "rt_info s' = rt_info s8" and dmt: "dm_tasks s' = dm_tasks s"
    and pu: "pushed (trace s') = pushed (trace s)"
    and qu: "dispatcher_queue s' = dispatcher_queue s @
               (if num_triggers_needed oi = 0 then [(kToRun, ?op)] else [])"
    using f8 unfolding s' created_frame_def
    by (simp_all add: Unlock_def QueuePush_def IncYetToFinish_def emit_def)
  have w': "waiting s' = waiting s5"
    using waiting_cong [OF rt'] x1 x2 by simp
  have w5: "waiting s5 x = (if ?k \<le> x \<and> x \<le> ?op then True else waiting s x)" for x
    by (simp add: waiting_def rt5)
  have dom': "rt_info s' x = None \<longleftrightarrow> \<not> (?k \<le> x \<and> x \<le> ?op) \<and> rt_info s x = None" for x
    unfolding rt' using x1 x2 rt5 [of x] by simp
  have p0: "preds_of g0 = preds_of (dag s)" and s0: "succs_of g0 = succs_of (dag s)"
  proof -
    have "preds_of g0 x = preds_of (dag s) x \<and> succs_of g0 x = succs_of (dag s) x" for x
    proof (cases "x \<in> {?k .. ?op}")
      case True
      then show ?thesis
        using g0b [OF True] new(2) [of x] by (simp add: preds_of_def succs_of_def)
    next
      case False
      then show ?thesis
        by (rule g0a)
    qed
    then show "preds_of g0 = preds_of (dag s)" "succs_of g0 = succs_of (dag s)"
      by (simp_all add: fun_eq_iff)
  qed
  have eg0: "edges_ok g0"
    using i(3) edges_ok_cong [OF p0 s0] by (simp add: dag_inv_def)
  have psd: "set ps \<subseteq> dom g0"
  proof
    fix p
    assume "p \<in> set ps"
    then have "rt_info s5 p \<noteq> None"
      using x1 by blast
    then have "p \<in> {?k .. ?op} \<or> rt_info s p \<noteq> None"
      unfolding rt5 by (auto split: if_splits)
    then show "p \<in> dom g0"
      unfolding g0 using dm [of p] by auto
  qed
  have rsd: "set ?rs \<subseteq> dom g0" "?op \<in> dom g0"
    unfolding g0 by auto
  let ?g1 = "fold (\<lambda>d. add_edge d ?op) ps g0"
  let ?G = "fold (\<lambda>d. add_edge ?op d) ?rs ?g1"
  have d1: "dom ?g1 = dom g0"
    by (rule fold_add_edge_from(1))
  have eg1: "edges_ok ?g1"
    by (rule edges_ok_fold_from [OF eg0 psd rsd(2)])
  have eG: "edges_ok ?G"
    by (rule edges_ok_fold_to [OF eg1]) (use rsd in \<open>simp_all only: d1\<close>)
  have d': "dag_inv s'"
    unfolding dag_inv_def
  proof (intro conjI allI)
    show "edges_ok (dag s')"
      using eG edges_ok_cong [OF pr su] by simp
    show "dag s' x = None \<longleftrightarrow> rt_info s' x = None" for x
    proof -
      have "dag s' x = None \<longleftrightarrow> x \<notin> dom g0"
        using dd by auto
      then show ?thesis
        unfolding dom' g0 using dm [of x] by auto
    qed
  qed
  have inf: "in_flight s' = in_flight s"
    unfolding in_flight_def dmt qu by simp
  have tr: "set (to_run (dispatcher_queue s')) \<subseteq> set (to_run (dispatcher_queue s)) \<union> {?op}"
    unfolding qu by auto
  have f': "flight_inv s'"
    unfolding flight_inv_def inf pu
  proof (intro conjI allI impI)
    show "distinct (in_flight s)" "set (in_flight s) \<subseteq> set (pushed (trace s))"
      using i(2) unfolding flight_inv_def by simp_all
  next
    fix c ri'
    assume c: "c \<in> set (to_run (dispatcher_queue s')) \<union> set (in_flight s)"
      and r: "rt_info s' c = Some ri'"
    show "state ri' = kReady"
    proof (cases "c = ?op")
      case True
      then show ?thesis
        using r oi unfolding rt' by simp
    next
      case False
      then have pc: "c \<in> set (to_run (dispatcher_queue s)) \<union> set (in_flight s)"
        using c tr by auto
      then have "c \<in> set (armed s)"
        using flight_invD(2) [OF i(2), of c] by (auto simp: armed_def)
      then have "c < ?k"
        by (rule once_invD(2) [OF i(1)])
      then have m: "map_option state (rt_info s8 c) = map_option state (rt_info s c)"
        using f8 unfolding created_frame_def by blast
      then obtain ri where ri: "rt_info s c = Some ri" "state ri = state ri'"
        using r unfolding rt' by (cases "rt_info s c") auto
      then show ?thesis
        using flight_invD(3) [OF i(2) pc ri(1)] by simp
    qed
  qed
  have t5: "triggers_of s5 x = (if ?k \<le> x \<and> x \<le> ?op then 0 else triggers_of s x)" for x
    by (simp add: triggers_of_def rt5)
  have t7: "triggers_of s7 x =
      triggers_of s5 x + (if x = ?op then int (length (filter (waiting s5) ps)) else 0)" for x
    using x1 by blast
  have t8: "triggers_of s7 x + (if x \<in> set ?rs \<and> waiting s7 ?op then 1 else 0)
      \<le> triggers_of s8 x" for x
    using x2 by blast
  have w7: "waiting s7 ?op"
    using x1 w5 [of ?op] by simp
  have t': "triggers_of s' = triggers_of s8"
    by (simp add: triggers_of_def rt' fun_eq_iff)
  have pG: "preds_of ?G x =
      (if x = ?op then fold insert_id ps []
       else if ?k \<le> x \<and> x < ?op then [?op] else preds_of (dag s) x)" for x
  proof -
    have a: "preds_of ?g1 y =
        (if y = ?op then fold insert_id ps (preds_of g0 y) else preds_of g0 y)" for y
      using rsd(2) by (simp add: fold_add_edge_from(2))
    have b: "preds_of ?G x =
        (if x \<in> set ?rs then insert_id ?op (preds_of ?g1 x) else preds_of ?g1 x)"
      using rsd(1) d1 by (auto simp: fold_add_edge_to(3))
    have c: "preds_of g0 y = []" if "?k \<le> y" "y \<le> ?op" for y
      using g0b [of y] that by simp
    show ?thesis
      unfolding b a using c [of x] c [of ?op] p0 by (auto simp: insert_id_def)
  qed
  have c': "counted {} s'"
    unfolding counted_alt t' pr w'
  proof (intro allI impI)
    fix x
    assume x: "rt_info s' x \<noteq> None"
    have "int (length (filter (waiting s5) (preds_of ?G x))) \<le> triggers_of s8 x"
    proof (cases "x = ?op")
      case True
      have "length (filter (waiting s5) (fold insert_id ps []))
              \<le> length (filter (waiting s5) ps)"
        by (rule filter_distinct_le) simp_all
      then have "int (length (filter (waiting s5) (preds_of ?G x))) \<le> triggers_of s7 x"
        unfolding pG t7 t5 using True by simp
      then show ?thesis
        using t8 [of x] True by simp
    next
      case False
      show ?thesis
      proof (cases "?k \<le> x \<and> x < ?op")
        case True
        then have "1 \<le> triggers_of s8 x"
          using t8 [of x] w7 t7 [of x] t5 [of x] False by simp
        moreover have "length (filter (waiting s5) (preds_of ?G x)) \<le> 1"
          unfolding pG using True False by simp
        ultimately show ?thesis
          by linarith
      next
        case nr: False
        then have xo: "\<not> (?k \<le> x \<and> x \<le> ?op)"
          using False by auto
        then have rx: "rt_info s x \<noteq> None"
          using x unfolding dom' by simp
        have pe: "preds_of ?G x = preds_of (dag s) x"
          unfolding pG using False nr by auto
        have "filter (waiting s5) (preds_of (dag s) x) = filter (waiting s) (preds_of (dag s) x)"
        proof (rule filter_cong [OF refl])
          fix p
          assume p: "p \<in> set (preds_of (dag s) x)"
          then have "x \<in> set (succs_of (dag s) p)"
            using i(3) unfolding dag_inv_def edges_ok_def by blast
          then have "dag s p \<noteq> None"
            by (cases "dag s p") (simp_all add: succs_of_def)
          then have "\<not> ?k \<le> p"
            using new(2) [of p] by auto
          then show "waiting s5 p = waiting s p"
            unfolding w5 by simp
        qed
        moreover have "int (length (filter (waiting s) (preds_of (dag s) x))) \<le> triggers_of s x"
          using i(4) rx unfolding counted_alt by fastforce
        moreover have "triggers_of s x \<le> triggers_of s8 x"
          using t8 [of x] t7 [of x] t5 [of x] xo False by (simp split: if_splits)
        ultimately show ?thesis
          unfolding pe by simp
      qed
    qed
    then show "int (length (filter (waiting s5) (preds_of ?G x))) + (if x \<in> {} then 1 else 0)
        \<le> triggers_of s8 x"
      by simp
  qed
  show ?thesis
    using o' f' d' c' by (simp add: sched_inv_def)
qed

section \<open>The invariants hold in every reachable state\<close>

lemma once_gc:
  assumes "gc s s'" and "once_inv s"
  shows "once_inv s'"
  using assms
proof (induction rule: gc.induct)
  case (gc_refl s)
  then show ?case by simp
next
  case (gc_ref s t p pri v)
  then show ?case
    by (simp add: set_refcount_once)
next
  case (gc_free s t d)
  then show ?case
    by (simp add: FreeDataNodeRes_once)
next
  case (gc_remove s t r t1)
  then show ?case
    by (simp add: remove_once)
qed

lemma counted_preds_cong:
  "rt_info s' = rt_info s \<Longrightarrow> preds_of (dag s') = preds_of (dag s) \<Longrightarrow>
     counted S s' = counted S s"
  using waiting_cong [of s' s] by (simp add: counted_def)

lemma sched_inv_cong:
  assumes "sched_inv s" and "dag s' = dag s" and "rt_info s' = rt_info s"
    and "dispatcher_queue s' = dispatcher_queue s" and "dm_tasks s' = dm_tasks s"
    and "pushed (trace s') = pushed (trace s)" and "dag_next_id s' = dag_next_id s"
  shows "sched_inv s'"
proof -
  note i = sched_invD [OF assms(1)]
  have "once_inv s'"
    by (rule once_inv_keep [OF i(1)]) (simp_all add: armed_def assms)
  moreover have "flight_inv s'"
    by (rule flight_cong [OF i(2)]) (simp_all add: assms)
  moreover have "dag_inv s'"
    by (rule dag_inv_cong [OF i(3)]) (simp_all add: assms)
  moreover have "counted {} s'"
    using counted_cong [of s' s "{}"] i(4) assms by simp
  ultimately show ?thesis
    by (simp add: sched_inv_def)
qed

lemma sched_gc:
  assumes "gc s s'" and "sched_inv s"
  shows "sched_inv s'"
  using sched_invD [OF assms(2)] once_gc [OF assms(1)] flight_gc [OF assms(1)]
    dag_gc [OF assms(1)] counted_gc [OF assms(1)]
  by (simp add: sched_inv_def)

lemma sched_emit:
  assumes "sched_inv s" and "pushed [a] = []"
  shows "sched_inv (emit a s)"
  by (rule sched_inv_cong [OF assms(1)]) (simp_all add: emit_def assms(2))

lemma OnExternRCUpdate_gc:
  assumes "OnExternRCUpdate n s = Inr s'"
  obtains t where "gc (Lock [n] s) t" "s' = Unlock t \<or> s' = emit (ADelete n) (Unlock t)"
proof -
  let ?s0 = "Lock [n] s"
  from assms obtain ri where ri: "rt_info s n = Some ri"
    by (cases "rt_info s n")
      (simp_all add: OnExternRCUpdate_def Let_def GetState_def At_def Lock_def emit_def)
  have at: "At n ?s0 = Inr ri" "GetState n ?s0 = Inr (state ri)"
    using ri by (simp_all add: GetState_def At_def Lock_def emit_def)
  show thesis
  proof (cases "state ri")
    case kReady
    then have "s' = Unlock ?s0"
      using assms at by (simp add: OnExternRCUpdate_def Let_def)
    then show ?thesis
      using that [OF gc_refl] by simp
  next
    case kOther
    then show ?thesis
      using assms at by (simp add: OnExternRCUpdate_def Let_def)
  next
    case kCompleted
    from assms at kCompleted obtain d where d: "data_node 93 n ?s0 = Inr d"
      by (cases "data_node 93 n ?s0") (simp_all add: OnExternRCUpdate_def Let_def)
    have eq: "(if reference_count ri = 0 \<and> extern_rc d = 0
               then bind_err (RemoveNodeFromDag n (FreeDataNodeRes d ?s0))
                      (\<lambda>s1. Inr (emit (ADelete n) (Unlock (OnDeleteNode n s1))))
               else Inr (Unlock ?s0)) = Inr s'"
      using assms at kCompleted d by (simp add: OnExternRCUpdate_def Let_def split: if_splits)
    show ?thesis
    proof (cases "reference_count ri = 0 \<and> extern_rc d = 0")
      case True
      with eq obtain s1 where r: "RemoveNodeFromDag n (FreeDataNodeRes d ?s0) = Inr s1"
        and e: "s' = emit (ADelete n) (Unlock (OnDeleteNode n s1))"
        by (auto simp: bind_err_eq_Inr)
      show ?thesis
        using that [OF gc_remove [OF gc_free [OF gc_refl] r]] e by simp
    next
      case False
      with eq have "s' = Unlock ?s0" by auto
      then show ?thesis
        using that [OF gc_refl] by simp
    qed
  qed
qed

lemma OnExternRCUpdate_inv:
  assumes "OnExternRCUpdate n s = Inr s'" and "sched_inv s"
  shows "sched_inv s'"
proof -
  obtain t where t: "gc (Lock [n] s) t" "s' = Unlock t \<or> s' = emit (ADelete n) (Unlock t)"
    by (rule OnExternRCUpdate_gc [OF assms(1)])
  have "sched_inv (Lock [n] s)"
    using assms(2) by (simp add: Lock_def sched_emit)
  then have "sched_inv t"
    by (rule sched_gc [OF t(1)])
  then show ?thesis
    using t(2) by (auto simp: Unlock_def sched_emit)
qed

lemma SetExternRC_frame:
  "rt_info (SetExternRC n v s) = rt_info s"
  "dispatcher_queue (SetExternRC n v s) = dispatcher_queue s"
  "dm_tasks (SetExternRC n v s) = dm_tasks s" "trace (SetExternRC n v s) = trace s"
  "dom (dag (SetExternRC n v s)) = dom (dag s)"
  "preds_of (dag (SetExternRC n v s)) = preds_of (dag s)"
  "succs_of (dag (SetExternRC n v s)) = succs_of (dag s)"
  by (auto simp: SetExternRC_def preds_of_def succs_of_def fun_eq_iff
      split: option.splits NodeBody.splits)

lemma SetExternRC_inv:
  assumes "sched_inv s"
  shows "sched_inv (SetExternRC n v s)"
proof -
  note i = sched_invD [OF assms]
  note f = SetExternRC_frame [of n v s]
  have "flight_inv (SetExternRC n v s)"
    by (rule flight_cong [OF i(2)]) (simp_all add: f)
  moreover have "dag_inv (SetExternRC n v s)"
  proof -
    have "dag (SetExternRC n v s) x = None \<longleftrightarrow> dag s x = None" for x
      using f(5) by (metis domIff)
    then show ?thesis
      using i(3) edges_ok_cong [OF f(6,7)] by (simp add: dag_inv_def f(1))
  qed
  moreover have "counted {} (SetExternRC n v s)"
    using counted_preds_cong [OF f(1,6)] i(4) by simp
  ultimately show ?thesis
    using SetExternRC_once [OF i(1)] by (simp add: sched_inv_def)
qed

lemma report_inv:
  assumes "dm_tasks s = ts @ t # ts'" and "sched_inv s"
  shows "sched_inv (OnOperationComplete t (s\<lparr>dm_tasks := ts @ ts'\<rparr>))"
proof -
  note i = sched_invD [OF assms(2)]
  let ?s' = "OnOperationComplete t (s\<lparr>dm_tasks := ts @ ts'\<rparr>)"
  have fr: "dag ?s' = dag s" "rt_info ?s' = rt_info s" "pushed (trace ?s') = pushed (trace s)"
    "to_run (dispatcher_queue ?s') = to_run (dispatcher_queue s)"
    "in_flight ?s' = map task_id ts @ map task_id ts' @ to_complete (dispatcher_queue s) @ [task_id t]"
    "in_flight s = map task_id ts @ task_id t # map task_id ts' @ to_complete (dispatcher_queue s)"
    using assms(1)
    by (simp_all add: in_flight_def OnOperationComplete_def QueuePush_def emit_def)
  have "flight_inv ?s'"
  proof (rule flight_mono [OF i(2)])
    show "distinct (in_flight ?s')"
      using flight_invD(1) [OF i(2)] unfolding fr by auto
    show "set (in_flight ?s') \<subseteq> set (pushed (trace ?s'))"
      using flight_invD(2) [OF i(2)] unfolding fr by auto
    fix c ri'
    assume "c \<in> set (to_run (dispatcher_queue ?s')) \<union> set (in_flight ?s')"
      "rt_info ?s' c = Some ri'"
    then show "c \<in> set (to_run (dispatcher_queue s)) \<union> set (in_flight s) \<and>
               (\<exists>ri. rt_info s c = Some ri \<and> state ri' = state ri)"
      unfolding fr by auto
  qed
  moreover have "dag_inv ?s'"
    by (rule dag_inv_cong [OF i(3)]) (simp_all add: fr)
  moreover have "counted {} ?s'"
    using counted_cong [of ?s' s "{}"] i(4) fr by simp
  ultimately show ?thesis
    using OnOperationComplete_once [OF i(1), of t "ts @ ts'"] by (simp add: sched_inv_def)
qed

lemma init_inv: "sched_inv init"
  by (simp add: sched_inv_def init_once)
    (simp add: flight_inv_def dag_inv_def edges_ok_def counted_def in_flight_def
      preds_of_def succs_of_def init_def)

lemma step_inv:
  assumes "step s s'" and "sched_inv s"
  shows "sched_inv s'"
  using assms
proof (induction rule: step.induct)
  case (create params result_sizes fn s ret s')
  then show ?case
    by (auto intro: Create_inv)
next
  case (dispatch s task q s')
  then show ?case
    using DispatcherBody_inv [of s "fst task" "snd task" q s'] by simp
next
  case (report s ts t ts')
  then show ?case
    by (simp add: report_inv)
next
  case (extern_rc s n v)
  then show ?case
    by (simp add: SetExternRC_inv)
next
  case (extern_update n s s')
  then show ?case
    by (auto intro: OnExternRCUpdate_inv)
next
  case (device s d)
  then show ?case
    by (auto intro: sched_inv_cong)
next
  case (waiting s t)
  then show ?case
    by (auto intro: sched_inv_cong)
qed

lemma reachable_inv: "reachable s \<Longrightarrow> sched_inv s"
  by (induction rule: reachable.induct) (auto intro: init_inv step_inv)

text \<open>
  When the dispatcher of a reachable state finds a \<open>kToRun\<close> event for node \<open>n\<close> at the
  head of the queue, which is when it pushes the task of an op node \<open>n\<close>, the trigger
  count of \<open>n\<close> is 0 and every predecessor of \<open>n\<close> is \<open>kCompleted\<close>.
\<close>

lemma dispatched_after_inputs:
  assumes "reachable s" and "dispatcher_queue s = (kToRun, n) # q" and "dag s n = Some nd"
  shows "\<exists>ri. rt_info s n = Some ri \<and> state ri = kReady \<and> num_triggers_needed ri = 0"
    and "\<forall>p \<in> set (predecessors nd). map_option state (rt_info s p) = Some kCompleted"
  using head_ready [OF reachable_inv [OF assms(1)] assms(2,3)] by blast+

text \<open>The example runs stay within the reachable states.\<close>

lemma reachable_Create:
  "reachable s \<Longrightarrow> Create params result_sizes fn s = Inr (ret, s') \<Longrightarrow> reachable s'"
  by (auto intro: reach_step step.create)

lemma reachable_DeviceReports: "reachable s \<Longrightarrow> reachable (DeviceReports s)"
proof (cases "dm_tasks s")
  case Nil
  then show "reachable s \<Longrightarrow> reachable (DeviceReports s)"
    by (simp add: DeviceReports_def)
next
  case (Cons t ts)
  then have "step s (DeviceReports s)"
    using step.report [of s "[]" t ts] by (simp add: DeviceReports_def)
  then show "reachable s \<Longrightarrow> reachable (DeviceReports s)"
    by (auto intro: reach_step)
qed

lemma reachable_DispatcherRoutine:
  "reachable s \<Longrightarrow> DispatcherRoutine k s = Inr s' \<Longrightarrow> reachable s'"
proof (induction k arbitrary: s)
  case 0
  then show ?case by simp
next
  case (Suc k)
  show ?case
  proof (cases "dispatcher_queue s")
    case Nil
    then show ?thesis
      using Suc.prems by simp
  next
    case (Cons task q)
    with Suc.prems(2) obtain t where t: "DispatcherBody task (s\<lparr>dispatcher_queue := q\<rparr>) = Inr t"
      and r: "DispatcherRoutine k t = Inr s'"
      by (auto simp: bind_err_eq_Inr)
    have "reachable t"
      by (rule reach_step [OF Suc.prems(1) step.dispatch [OF Cons t]])
    then show ?thesis
      using r by (rule Suc.IH)
  qed
qed

lemma op_done_reachable: "reachable op_done"
proof -
  have c: "reachable created"
    by (rule reachable_Create [OF reach_init Create_created])
  from op_done_reached obtain t where t: "DispatcherRoutine 1 created = Inr t"
    and r: "DispatcherRoutine 1 (DeviceReports t) = Inr op_done"
    by (auto simp: bind_err_eq_Inr)
  show ?thesis
    by (rule reachable_DispatcherRoutine
        [OF reachable_DeviceReports [OF reachable_DispatcherRoutine [OF c t]] r])
qed

lemma dup_stuck_reachable: "reachable dup_stuck"
  by (rule reachable_DispatcherRoutine
      [OF reachable_Create [OF op_done_reachable dup_created_reached] dup_stuck_reached])

section \<open>Submission and the lock\<close>

text \<open>
  Claim C1, as stated, fails: in the run that leads to \<open>created\<close> the data node 0 is
  allocated and registered with the runtime information before the lock is taken.
\<close>

theorem Create_mutates_before_lock_counterexample:
  "Create [] [[4]] 7 init = Inr ([DagChunk 0], created) \<and>
   trace init = [] \<and>
   trace created = [ANewDataNode 0, AAddNode 0, ALock [], ANewOpNode 1, AAddNode 1, AIncRef 1,
                    AIncTriggers 0, AIncYetToFinish, AQueuePush kToRun 1, AUnlock] \<and>
   rt_info init 0 = None \<and>
   rt_info (snd (NewResultNodes [[4]] 0 init)) 0 = None \<and>
   dag (snd (NewResultNodes [[4]] 0 init)) 0 =
     Some \<lparr>predecessors = [], successors = [], body = DataBody D0\<rparr> \<and>
   rt_info (fold OnCreateNode [0] (snd (NewResultNodes [[4]] 0 init))) 0 =
     Some \<lparr>num_triggers_needed = 0, reference_count = 0, state = kReady\<rparr> \<and>
   trace (fold OnCreateNode [0] (snd (NewResultNodes [[4]] 0 init))) =
     [ANewDataNode 0, AAddNode 0]"
  using Create_created
  by (simp add: created_def init_def GenerateDataId_def NewDataNode_def OnCreateNode_def
      AddNode_def emit_def D0_def Let_def)

text \<open>
  Claim C1, amended. \<open>Create\<close> allocates the result data nodes, with fresh ids, and
  registers them with the runtime information before it takes the lock on the input
  data nodes. Everything else happens between the lock and the unlock: the allocation
  of the op node, its registration, the counter updates of \<open>OnCreateEdge\<close> and
  \<open>ProcessIfReady\<close>. Nothing follows the unlock.
\<close>

theorem Create_trace:
  "Create params result_sizes fn s = Inr (ret, s') \<Longrightarrow>
   (\<exists>rs ps mid.
      rs = [dag_next_id s ..< dag_next_id s + length result_sizes] \<and>
      params = map DagChunk ps \<and> ret = map DagChunk rs \<and>
      trace s' = trace s @ map ANewDataNode rs @ map AAddNode rs @
                 [ALock ps, ANewOpNode (dag_next_id s + length result_sizes),
                  AAddNode (dag_next_id s + length result_sizes)] @ mid @ [AUnlock] \<and>
      set mid \<subseteq> range AIncRef \<union> range AIncTriggers \<union>
                {AIncYetToFinish, AQueuePush kToRun (dag_next_id s + length result_sizes)})"
proof -
  assume c: "Create params result_sizes fn s = Inr (ret, s')"
  from c obtain rs s1 ps s4 s5 s7 s8 s9 where
    n: "NewResultNodes result_sizes (current_device_id s) s = (rs, s1)" and
    ps: "MapE params chunk_node = Inr ps" and
    ret: "ret = map DagChunk rs" and
    o: "NewOpNode ps rs \<lparr>compute_fn = fn, op_device_id = 0\<rparr>
       (Lock ps (fold OnCreateNode rs s1)) = (dag_next_id s1, s4)" and
    s5: "s5 = OnCreateNode (dag_next_id s1)
                (set_op_device (dag_next_id s1) (current_device_id s) s4)" and
    e1: "Iter ps (\<lambda>n. OnCreateEdge n (dag_next_id s1)) s5 = Inr s7" and
    e2: "Iter rs (\<lambda>n. OnCreateEdge (dag_next_id s1) n) s7 = Inr s8" and
    p: "ProcessIfReady (dag_next_id s1) s8 = Inr s9" and
    s': "s' = Unlock s9"
    by (rule Create_steps)
  let ?A = "range AIncRef \<union> range AIncTriggers \<union>
            {AIncYetToFinish, AQueuePush kToRun (dag_next_id s1)}"
  note r = NewResultNodes_result [OF n]
  have "trace s4 = trace (fold OnCreateNode rs s1) @ [ALock ps, ANewOpNode (dag_next_id s1)]"
    using NewOpNode_result [OF o] by (simp add: Lock_def emit_def)
  then have t4: "trace s4 = trace s @ map ANewDataNode rs @ map AAddNode rs @
                       [ALock ps, ANewOpNode (dag_next_id s1)]"
    using r fold_OnCreateNode [of rs s1] by simp
  have t5: "trace s5 = trace s4 @ [AAddNode (dag_next_id s1)]"
    unfolding s5
    by (simp add: OnCreateNode_def AddNode_def emit_def set_op_device_def
        split: option.splits NodeBody.splits)
  from Iter_OnCreateEdge_from(2) [OF e1]
  obtain a where a: "trace s7 = trace s5 @ a" "set a \<subseteq> range AIncRef \<union> range AIncTriggers"
    by (elim exE conjE)
  from Iter_OnCreateEdge_to(2) [OF e2]
  obtain b where b: "trace s8 = trace s7 @ b" "set b \<subseteq> range AIncRef \<union> range AIncTriggers"
    by (elim exE conjE)
  from ProcessIfReady_frame(3) [OF p]
  obtain c where c: "trace s9 = trace s8 @ c"
      "set c \<subseteq> {AIncYetToFinish, AQueuePush kToRun (dag_next_id s1)}"
    by (elim exE conjE)
  define mid where "mid = a @ b @ c"
  have mid1: "trace s9 = trace s5 @ mid"
    using a(1) b(1) c(1) by (simp add: mid_def)
  have "set a \<subseteq> ?A" "set b \<subseteq> ?A" "set c \<subseteq> ?A"
    using a(2) b(2) c(2) by auto
  then have mid2: "set mid \<subseteq> ?A"
    by (simp add: mid_def)
  note mid = mid1 mid2
  have id1: "dag_next_id s1 = dag_next_id s + length result_sizes"
    and rs: "rs = [dag_next_id s ..< dag_next_id s + length result_sizes]"
    using r by simp_all
  have tr: "trace s' = trace s @ map ANewDataNode rs @ map AAddNode rs @
                 [ALock ps, ANewOpNode (dag_next_id s1), AAddNode (dag_next_id s1)] @
                 mid @ [AUnlock]"
    using s' mid(1) t5 t4 by (simp add: Unlock_def emit_def)
  show ?thesis
    apply (rule exI [of _ rs])
    apply (rule exI [of _ ps])
    apply (rule exI [of _ mid])
    using rs ret MapE_chunk_node [OF ps] tr mid(2) unfolding id1
    apply simp
    done
qed

theorem Create_trace_witness:
  "Create [] [[4]] 7 init = Inr ([DagChunk 0], created) \<and>
   (\<exists>mid. trace created = trace init @ map ANewDataNode [0] @ map AAddNode [0] @
             [ALock [], ANewOpNode 1, AAddNode 1] @ mid @ [AUnlock] \<and>
          set mid \<subseteq> range AIncRef \<union> range AIncTriggers \<union>
                    {AIncYetToFinish, AQueuePush kToRun 1})"
proof -
  from Create_trace [OF Create_created]
  obtain rs ps mid where
    rs: "rs = [dag_next_id init ..< dag_next_id init + length [[4::nat]]]" and
    tr: "trace created = trace init @ map ANewDataNode rs @ map AAddNode rs @
           [ALock ps, ANewOpNode (dag_next_id init + length [[4::nat]]),
            AAddNode (dag_next_id init + length [[4::nat]])] @ mid @ [AUnlock]" and
    ps: "[] = map DagChunk ps" and
    mid: "set mid \<subseteq> range AIncRef \<union> range AIncTriggers \<union>
            {AIncYetToFinish, AQueuePush kToRun (dag_next_id init + length [[4::nat]])}"
    by (elim exE conjE)
  have i: "dag_next_id init = 0"
    by (simp add: init_def)
  have "rs = [0]" "ps = []"
    using rs ps by (simp_all add: i)
  then have "trace created = trace init @ map ANewDataNode [0] @ map AAddNode [0] @
             [ALock [], ANewOpNode 1, AAddNode 1] @ mid @ [AUnlock] \<and>
          set mid \<subseteq> range AIncRef \<union> range AIncTriggers \<union>
                    {AIncYetToFinish, AQueuePush kToRun 1}"
    using tr mid by (simp add: i)
  then show ?thesis
    using Create_created by blast
qed

section \<open>Reading a value\<close>




section \<open>A completion event for a completed node\<close>

text \<open>
  Claim C3, as stated, fails: \<open>op_done\<close> is reached from the initial scheduler, op 1 is
  \<open>kCompleted\<close> there, and the dispatcher body processes a second completion event for
  it without aborting. The replay is applied: \<open>num_triggers_needed\<close> of data node 0
  becomes \<open>-1\<close>, and \<open>num_nodes_yet_to_finish\<close> becomes 0 while the event \<open>(kToRun, 0)\<close>
  is still queued.
\<close>

theorem replayed_completion_counterexample:
  "Create [] [[4]] 7 init = Inr ([DagChunk 0], created) \<and>
   bind_err (DispatcherRoutine 1 created) (\<lambda>s. DispatcherRoutine 1 (DeviceReports s)) =
     Inr op_done \<and>
   rt_info op_done 1 = Some \<lparr>num_triggers_needed = 0, reference_count = 1, state = kCompleted\<rparr> \<and>
   DispatcherBody (kToComplete, 1) op_done = Inr replayed \<and>
   rt_info op_done 0 = Some \<lparr>num_triggers_needed = 0, reference_count = 0, state = kReady\<rparr> \<and>
   rt_info replayed 0 = Some \<lparr>num_triggers_needed = - 1, reference_count = 0, state = kReady\<rparr> \<and>
   num_nodes_yet_to_finish op_done = 1 \<and>
   num_nodes_yet_to_finish replayed = 0 \<and>
   dispatcher_queue replayed = [(kToRun, 0)]"
  using Create_created op_done_reached replayed_reached
  by (simp add: op_done_def replayed_def)

text \<open>
  Claim C3, amended. The dispatcher does not look at the state that a node has when a
  completion event for it is processed: the body gives the same result whatever that
  state is. A completion event for a node that is already \<open>kCompleted\<close> is therefore
  processed like the first one; the body aborts only where it would abort for a
  \<open>kReady\<close> node with the same counters.
\<close>

theorem completion_ignores_state:
  "rt_info s n = Some ri \<Longrightarrow> dag s n = Some nd \<Longrightarrow> ty = kToComplete \<or> Type nd = kDataNode \<Longrightarrow>
   DispatcherBody (ty, n) (s\<lparr>rt_info := (rt_info s)(n \<mapsto> ri\<lparr>state := st\<rparr>)\<rparr>) =
   DispatcherBody (ty, n) s"
  by (cases ty; cases "Type nd")
    (simp_all add: DispatcherBody_def GetNode_def At_def Lock_def emit_def set_info_def Let_def)

theorem completion_ignores_state_witness:
  "rt_info op_done 1 = Some \<lparr>num_triggers_needed = 0, reference_count = 1, state = kCompleted\<rparr> \<and>
   dag op_done 1 = Some N1 \<and>
   DispatcherBody (kToComplete, 1)
     (op_done\<lparr>rt_info := (rt_info op_done)
        (1 \<mapsto> \<lparr>num_triggers_needed = 0, reference_count = 1, state = kReady\<rparr>)\<rparr>) = Inr replayed \<and>
   DispatcherBody (kToComplete, 1) op_done = Inr replayed"
proof -
  let ?ri = "\<lparr>num_triggers_needed = 0, reference_count = 1, state = kCompleted\<rparr>"
  have h1: "rt_info op_done 1 = Some ?ri"
    by (simp add: op_done_def)
  have h2: "dag op_done 1 = Some N1"
    by (simp add: op_done_def)
  have h3: "kToComplete = kToComplete \<or> Type N1 = kDataNode"
    by simp
  show ?thesis
    using completion_ignores_state [OF h1 h2 h3, of kReady] h1 h2 replayed_reached
    by simp
qed

section \<open>Completion of an op node\<close>









section \<open>Completion of a data node\<close>

text \<open>
  Claim C5. When the dispatcher body returns for a completion event of a data node, the
  node had exactly one predecessor \<open>p\<close>, whose \<open>num_triggers_needed\<close> was 0. The trace
  shows, after the lock and the state change, first the reclamation of the data node
  (its value freed, the node removed from the DAG and from the runtime information),
  which happens exactly when its own \<open>reference_count\<close> and \<open>extern_rc\<close> are 0, then the
  decrement of the \<open>reference_count\<close> of \<open>p\<close>, and then the removal of \<open>p\<close>, which happens
  exactly when the decremented count is 0; no external reference count is read for \<open>p\<close>.
\<close>

theorem data_completion:
  assumes "dag s n = Some nd" and "body nd = DataBody d" and "rt_info s n = Some ri"
    and "n \<notin> set (predecessors nd)"
    and "DispatcherBody (ty, n) s = Inr s'"
  shows "\<exists>p pri rest.
      predecessors nd = [p] \<and> rt_info s p = Some pri \<and> num_triggers_needed pri = 0 \<and>
      trace s' = trace s @ [ALock [n], ASetCompleted n] @
        (if reference_count ri = 0 \<and> extern_rc d = 0
         then [AFreeData (data_id d), ARemoveNodeFromDag n, ARemoveNode n] else []) @
        [ADecRef p] @
        (if reference_count pri - 1 = 0 then [ARemoveNodeFromDag p, ARemoveNode p] else []) @
        rest \<and>
      set rest \<subseteq> range ADecTriggers \<union> range (AQueuePush kToRun) \<union> range ADelete \<union>
                 {AIncYetToFinish, ADecYetToFinish, ANotifyAll, AUnlock} \<and>
      (if reference_count ri = 0 \<and> extern_rc d = 0
       then dag s' n = None \<and> rt_info s' n = None
       else dag s' n \<noteq> None \<and> map_option state (rt_info s' n) = Some kCompleted) \<and>
      (if reference_count pri - 1 = 0
       then dag s' p = None \<and> rt_info s' p = None
       else map_option body (dag s' p) = map_option body (dag s p) \<and>
            map_option reference_count (rt_info s' p) = Some (reference_count pri - 1))"
proof -
  let ?R = "reference_count ri = 0 \<and> extern_rc d = 0"
  let ?ri1 = "ri\<lparr>state := kCompleted\<rparr>"
  let ?s1 = "emit (ASetCompleted n) (set_info n ?ri1 (Lock [n] s))"
  have ty: "Type nd = kDataNode"
    using assms(2) by (simp add: Type_def)
  have tyc: "ty = kToComplete \<or> Type nd = kDataNode"
    using ty by simp
  obtain ri0 td s2 s3 where
    r0: "rt_info s n = Some ri0" and
    c0: "(if Type nd = kOpNode
          then CompleteOp nd (ri0\<lparr>state := kCompleted\<rparr>)
                 (emit (ASetCompleted n) (set_info n (ri0\<lparr>state := kCompleted\<rparr>) (Lock [n] s)))
          else CompleteData n nd (ri0\<lparr>state := kCompleted\<rparr>)
                 (emit (ASetCompleted n) (set_info n (ri0\<lparr>state := kCompleted\<rparr>) (Lock [n] s))))
           = Inr (td, s2)" and
    it: "Iter (successors nd) TriggerSucc s2 = Inr s3" and
    s': "s' = finish_body n td s3"
    by (rule DispatcherBody_completion [OF assms(5) assms(1) tyc])
  have "ri0 = ri"
    using r0 assms(3) by simp
  then have c: "CompleteData n nd ?ri1 ?s1 = Inr (td, s2)"
    using c0 ty by simp
  have s1: "dag ?s1 = dag s" "rt_info ?s1 = (rt_info s)(n \<mapsto> ?ri1)"
    "trace ?s1 = trace s @ [ALock [n], ASetCompleted n]"
    by (simp_all add: emit_def set_info_def Lock_def)
  \<comment> \<open>the reclamation of the node itself\<close>
  let ?a = "if ?R then bind_err (RemoveNodeFromDag n (FreeDataNodeRes d ?s1))
                         (\<lambda>t. Inr ([n], OnDeleteNode n t))
            else Inr ([], ?s1)"
  from c assms(2) obtain td1 t2 where a: "?a = Inr (td1, t2)"
    by (cases ?a) (auto simp: CompleteData_def)
  have a_tr: "trace t2 = trace ?s1 @
      (if ?R then [AFreeData (data_id d), ARemoveNodeFromDag n, ARemoveNode n] else [])"
    and a_n: "if ?R then dag t2 n = None \<and> rt_info t2 n = None
              else dag t2 n \<noteq> None \<and> rt_info t2 n = Some ?ri1"
    and a_q: "\<And>q. q \<noteq> n \<Longrightarrow> rt_info t2 q = rt_info s q \<and>
                 (dag t2 q = None \<longleftrightarrow> dag s q = None) \<and>
                 map_option body (dag t2 q) = map_option body (dag s q)"
  proof -
    show "trace t2 = trace ?s1 @
      (if ?R then [AFreeData (data_id d), ARemoveNodeFromDag n, ARemoveNode n] else [])"
    proof (cases ?R)
      case True
      with a obtain t where t: "RemoveNodeFromDag n (FreeDataNodeRes d ?s1) = Inr t"
        and t2: "t2 = OnDeleteNode n t"
        by (auto simp: bind_err_eq_Inr)
      show ?thesis
        using True RemoveNodeFromDag_Inr(6) [OF t] t2
        by (simp add: OnDeleteNode_frame FreeDataNodeRes_frame)
    next
      case False
      with a show ?thesis by auto
    qed
    show "if ?R then dag t2 n = None \<and> rt_info t2 n = None
              else dag t2 n \<noteq> None \<and> rt_info t2 n = Some ?ri1"
    proof (cases ?R)
      case True
      with a obtain t where t: "RemoveNodeFromDag n (FreeDataNodeRes d ?s1) = Inr t"
        and t2: "t2 = OnDeleteNode n t"
        by (auto simp: bind_err_eq_Inr)
      show ?thesis
        using True RemoveNodeFromDag_Inr(2) [OF t] t2
        by (simp add: OnDeleteNode_frame)
    next
      case False
      with a have "t2 = ?s1" by auto
      then show ?thesis
        using False assms(1) s1 by simp
    qed
    show "rt_info t2 q = rt_info s q \<and> (dag t2 q = None \<longleftrightarrow> dag s q = None) \<and>
          map_option body (dag t2 q) = map_option body (dag s q)" if q: "q \<noteq> n" for q
    proof (cases ?R)
      case True
      with a obtain t where t: "RemoveNodeFromDag n (FreeDataNodeRes d ?s1) = Inr t"
        and t2: "t2 = OnDeleteNode n t"
        by (auto simp: bind_err_eq_Inr)
      show ?thesis
        using q RemoveNodeFromDag_Inr(3,4) [OF t q] RemoveNodeFromDag_Inr(5) [OF t] t2 s1
        by (simp add: OnDeleteNode_frame FreeDataNodeRes_frame)
    next
      case False
      with a have "t2 = ?s1" by auto
      then show ?thesis
        using q s1 by simp
    qed
  qed
  \<comment> \<open>the predecessor\<close>
  have c2: "CompleteData n nd ?ri1 ?s1 =
      (if length (predecessors nd) \<noteq> 1 then Inl (Check 206)
       else bind_err (At (hd (predecessors nd)) t2) (\<lambda>pred_ri.
              if num_triggers_needed pred_ri \<noteq> 0 then Inl (Check 209)
              else
                let rc = reference_count pred_ri - 1;
                    u3 = emit (ADecRef (hd (predecessors nd)))
                           (set_info (hd (predecessors nd)) (pred_ri\<lparr>reference_count := rc\<rparr>) t2)
                in if rc = 0
                   then bind_err (RemoveNodeFromDag (hd (predecessors nd)) u3) (\<lambda>u4.
                          Inr (td1 @ [hd (predecessors nd)], OnDeleteNode (hd (predecessors nd)) u4))
                   else Inr (td1, u3)))"
    using a assms(2) by (simp add: CompleteData_def Let_def)
  from c c2 have len: "length (predecessors nd) = 1"
    by (auto split: if_splits)
  then obtain p where p: "predecessors nd = [p]"
    by (cases "predecessors nd") auto
  have pn: "p \<noteq> n"
    using assms(4) p by auto
  have c2p: "bind_err (At p t2) (\<lambda>pred_ri.
              if num_triggers_needed pred_ri \<noteq> 0 then Inl (Check 209)
              else
                let rc = reference_count pred_ri - 1;
                    u3 = emit (ADecRef p) (set_info p (pred_ri\<lparr>reference_count := rc\<rparr>) t2)
                in if rc = 0
                   then bind_err (RemoveNodeFromDag p u3) (\<lambda>u4.
                          Inr (td1 @ [p], OnDeleteNode p u4))
                   else Inr (td1, u3)) = Inr (td, s2)"
    using c unfolding c2 p by (simp add: Let_def cong: if_cong)
  from c2p obtain pri where pri: "rt_info t2 p = Some pri"
    by (cases "rt_info t2 p") (auto simp: At_def)
  have pri_s: "rt_info s p = Some pri"
    using a_q [OF pn] pri by simp
  have at_p: "At p t2 = Inr pri"
    using pri by (simp add: At_def)
  have trg: "num_triggers_needed pri = 0"
    using c2p unfolding at_p by (auto split: if_splits)
  let ?rc = "reference_count pri - 1"
  let ?u3 = "emit (ADecRef p) (set_info p (pri\<lparr>reference_count := ?rc\<rparr>) t2)"
  have u3: "dag ?u3 = dag t2" "rt_info ?u3 = (rt_info t2)(p \<mapsto> pri\<lparr>reference_count := ?rc\<rparr>)"
    "trace ?u3 = trace t2 @ [ADecRef p]"
    by (simp_all add: emit_def set_info_def)
  have c3: "(if ?rc = 0
             then bind_err (RemoveNodeFromDag p ?u3) (\<lambda>u4. Inr (td1 @ [p], OnDeleteNode p u4))
             else Inr (td1, ?u3)) = Inr (td, s2)"
    using c2p trg unfolding at_p by (simp add: Let_def)
  have b_tr: "trace s2 = trace ?u3 @
      (if ?rc = 0 then [ARemoveNodeFromDag p, ARemoveNode p] else [])"
    and b_p: "if ?rc = 0 then dag s2 p = None \<and> rt_info s2 p = None
              else map_option body (dag s2 p) = map_option body (dag s p) \<and>
                   map_option reference_count (rt_info s2 p) = Some ?rc"
    and b_n: "if ?R then dag s2 n = None \<and> rt_info s2 n = None
              else dag s2 n \<noteq> None \<and> map_option state (rt_info s2 n) = Some kCompleted"
  proof -
    show "trace s2 = trace ?u3 @
      (if ?rc = 0 then [ARemoveNodeFromDag p, ARemoveNode p] else [])"
    proof (cases "?rc = 0")
      case True
      with c3 obtain u4 where u4: "RemoveNodeFromDag p ?u3 = Inr u4"
        and s2: "s2 = OnDeleteNode p u4"
        by (auto simp: bind_err_eq_Inr)
      show ?thesis
        using True RemoveNodeFromDag_Inr(6) [OF u4] s2
        by (simp add: OnDeleteNode_frame)
    next
      case False
      with c3 show ?thesis by auto
    qed
    show "if ?rc = 0 then dag s2 p = None \<and> rt_info s2 p = None
              else map_option body (dag s2 p) = map_option body (dag s p) \<and>
                   map_option reference_count (rt_info s2 p) = Some ?rc"
    proof (cases "?rc = 0")
      case True
      with c3 obtain u4 where u4: "RemoveNodeFromDag p ?u3 = Inr u4"
        and s2: "s2 = OnDeleteNode p u4"
        by (auto simp: bind_err_eq_Inr)
      show ?thesis
        using True RemoveNodeFromDag_Inr(2) [OF u4] s2
        by (simp add: OnDeleteNode_frame)
    next
      case False
      with c3 have "s2 = ?u3" by auto
      then show ?thesis
        using False u3 a_q [OF pn] by simp
    qed
    show "if ?R then dag s2 n = None \<and> rt_info s2 n = None
              else dag s2 n \<noteq> None \<and> map_option state (rt_info s2 n) = Some kCompleted"
    proof (cases "?rc = 0")
      case True
      with c3 obtain u4 where u4: "RemoveNodeFromDag p ?u3 = Inr u4"
        and s2: "s2 = OnDeleteNode p u4"
        by (auto simp: bind_err_eq_Inr)
      have np: "n \<noteq> p" using pn by simp
      show ?thesis
        using RemoveNodeFromDag_Inr(3) [OF u4 np] RemoveNodeFromDag_Inr(5) [OF u4] s2 u3 a_n pn
        by (simp add: OnDeleteNode_frame split: if_splits)
    next
      case False
      with c3 have "s2 = ?u3" by auto
      then show ?thesis
        using u3 a_n pn by (simp split: if_splits)
    qed
  qed
  \<comment> \<open>the successor loop and the end of the body\<close>
  from Iter_TriggerSucc_frame(4) [OF it]
  obtain r1 where r1: "trace s3 = trace s2 @ r1"
    "set r1 \<subseteq> range ADecTriggers \<union> range (AQueuePush kToRun) \<union> {AIncYetToFinish}"
    by (elim exE conjE)
  from finish_body_frame(4) [of n td s3]
  obtain r2 where r2: "trace s' = trace s3 @ r2"
    "set r2 \<subseteq> {ADecYetToFinish, ANotifyAll, AUnlock} \<union> range ADelete"
    unfolding s' by (elim exE conjE)
  define rest where "rest = r1 @ r2"
  have rest: "set rest \<subseteq> range ADecTriggers \<union> range (AQueuePush kToRun) \<union> range ADelete \<union>
                 {AIncYetToFinish, ADecYetToFinish, ANotifyAll, AUnlock}"
    using r1(2) r2(2) by (auto simp: rest_def)
  have tr: "trace s' = trace s @ [ALock [n], ASetCompleted n] @
        (if ?R then [AFreeData (data_id d), ARemoveNodeFromDag n, ARemoveNode n] else []) @
        [ADecRef p] @
        (if ?rc = 0 then [ARemoveNodeFromDag p, ARemoveNode p] else []) @ rest"
    using r2(1) r1(1) b_tr u3(3) a_tr s1(3) by (simp add: rest_def)
  have fr: "dag s' = dag s2" "\<And>q. map_option state (rt_info s' q) = map_option state (rt_info s2 q)"
    "\<And>q. map_option reference_count (rt_info s' q) = map_option reference_count (rt_info s2 q)"
    using Iter_TriggerSucc_frame(1,2,3) [OF it] s' by (simp_all add: finish_body_frame)
  have none: "\<And>q. rt_info s' q = None \<longleftrightarrow> rt_info s2 q = None"
    using fr(2) by (metis map_option_is_None)
  have fin_n: "if ?R then dag s' n = None \<and> rt_info s' n = None
       else dag s' n \<noteq> None \<and> map_option state (rt_info s' n) = Some kCompleted"
    using b_n fr(1) fr(2) [of n] none [of n] by (simp split: if_splits)
  have fin_p: "if ?rc = 0 then dag s' p = None \<and> rt_info s' p = None
       else map_option body (dag s' p) = map_option body (dag s p) \<and>
            map_option reference_count (rt_info s' p) = Some ?rc"
    using b_p fr(1) fr(3) [of p] none [of p] by (simp split: if_splits)
  show ?thesis
    apply (rule exI [of _ p])
    apply (rule exI [of _ pri])
    apply (rule exI [of _ rest])
    using p pri_s trg tr rest fin_n fin_p
    apply simp
    done
qed

theorem data_completion_witness:
  "dag (op_done\<lparr>dispatcher_queue := []\<rparr>) 0 =
     Some \<lparr>predecessors = [1], successors = [], body = DataBody D0\<rparr> \<and>
   rt_info (op_done\<lparr>dispatcher_queue := []\<rparr>) 0 =
     Some \<lparr>num_triggers_needed = 0, reference_count = 0, state = kReady\<rparr> \<and>
   0 \<notin> set [1 :: nat] \<and>
   DispatcherBody (kToRun, 0) (op_done\<lparr>dispatcher_queue := []\<rparr>) = Inr all_reclaimed \<and>
   rt_info op_done 1 =
     Some \<lparr>num_triggers_needed = 0, reference_count = 1, state = kCompleted\<rparr> \<and>
   extern_rc D0 = 0 \<and>
   (\<exists>rest. trace all_reclaimed = trace op_done @ [ALock [0], ASetCompleted 0] @
        [AFreeData (data_id D0), ARemoveNodeFromDag 0, ARemoveNode 0] @ [ADecRef 1] @
        [ARemoveNodeFromDag 1, ARemoveNode 1] @ rest \<and>
      set rest \<subseteq> range ADecTriggers \<union> range (AQueuePush kToRun) \<union> range ADelete \<union>
                 {AIncYetToFinish, ADecYetToFinish, ANotifyAll, AUnlock}) \<and>
   dag all_reclaimed 0 = None \<and> rt_info all_reclaimed 0 = None \<and>
   dag all_reclaimed 1 = None \<and> rt_info all_reclaimed 1 = None"
proof -
  let ?s = "op_done\<lparr>dispatcher_queue := []\<rparr>"
  let ?nd = "\<lparr>predecessors = [1], successors = [], body = DataBody D0\<rparr>"
  let ?ri = "\<lparr>num_triggers_needed = 0, reference_count = 0, state = kReady\<rparr>"
  let ?pri = "\<lparr>num_triggers_needed = 0, reference_count = 1, state = kCompleted\<rparr>"
  have h1: "dag ?s 0 = Some ?nd"
    by (simp add: op_done_def)
  have h2: "body ?nd = DataBody D0"
    by simp
  have h3: "rt_info ?s 0 = Some ?ri"
    by (simp add: op_done_def)
  have h4: "0 \<notin> set (predecessors ?nd)"
    by simp
  have h5: "DispatcherBody (kToRun, 0) ?s = Inr all_reclaimed"
    using all_reclaimed_reached DispatcherRoutine_one [of op_done "(kToRun, 0)" "[]"]
    by (simp add: op_done_def)
  have i1: "rt_info op_done 1 = Some ?pri" "rt_info ?s 1 = Some ?pri"
    by (simp_all add: op_done_def)
  have e: "extern_rc D0 = 0"
    by (simp add: D0_def)
  from data_completion [OF h1 h2 h3 h4 h5]
  obtain p pri rest where w:
    "predecessors ?nd = [p]" "rt_info ?s p = Some pri"
    "trace all_reclaimed = trace ?s @ [ALock [0], ASetCompleted 0] @
        (if reference_count ?ri = 0 \<and> extern_rc D0 = 0
         then [AFreeData (data_id D0), ARemoveNodeFromDag 0, ARemoveNode 0] else []) @
        [ADecRef p] @
        (if reference_count pri - 1 = 0 then [ARemoveNodeFromDag p, ARemoveNode p] else []) @
        rest"
    "set rest \<subseteq> range ADecTriggers \<union> range (AQueuePush kToRun) \<union> range ADelete \<union>
                 {AIncYetToFinish, ADecYetToFinish, ANotifyAll, AUnlock}"
    "if reference_count ?ri = 0 \<and> extern_rc D0 = 0
       then dag all_reclaimed 0 = None \<and> rt_info all_reclaimed 0 = None
       else dag all_reclaimed 0 \<noteq> None \<and>
            map_option state (rt_info all_reclaimed 0) = Some kCompleted"
    "if reference_count pri - 1 = 0
       then dag all_reclaimed p = None \<and> rt_info all_reclaimed p = None
       else map_option body (dag all_reclaimed p) = map_option body (dag ?s p) \<and>
            map_option reference_count (rt_info all_reclaimed p) = Some (reference_count pri - 1)"
    by (elim exE conjE)
  have p: "p = 1" using w(1) by simp
  have pri: "pri = ?pri" using w(2) i1(2) p by simp
  have t: "\<exists>rest. trace all_reclaimed = trace op_done @ [ALock [0], ASetCompleted 0] @
        [AFreeData (data_id D0), ARemoveNodeFromDag 0, ARemoveNode 0] @ [ADecRef 1] @
        [ARemoveNodeFromDag 1, ARemoveNode 1] @ rest \<and>
      set rest \<subseteq> range ADecTriggers \<union> range (AQueuePush kToRun) \<union> range ADelete \<union>
                 {AIncYetToFinish, ADecYetToFinish, ANotifyAll, AUnlock}"
    apply (rule exI [of _ rest])
    using w(3,4) e unfolding p pri
    apply simp
    done
  have g: "dag all_reclaimed 0 = None \<and> rt_info all_reclaimed 0 = None"
    "dag all_reclaimed 1 = None \<and> rt_info all_reclaimed 1 = None"
    using w(5,6) e unfolding p pri by simp_all
  show ?thesis
    using h1 h3 h5 i1(1) e t g by simp
qed

section \<open>Enqueueing of ToRun events\<close>



section \<open>External reference count updates\<close>

text \<open>
  Claim C7. Between the lock and the unlock of the node, \<open>OnExternRCUpdate\<close> frees the
  value and removes the node from the DAG and from the runtime information exactly when
  the node is \<open>kCompleted\<close> with \<open>reference_count\<close> 0 and \<open>extern_rc\<close> 0, and then deletes
  the node object after the unlock; for a \<open>kCompleted\<close> node that is still referenced and
  for a \<open>kReady\<close> node it changes nothing; for any other state it aborts at line 115.
\<close>

theorem OnExternRCUpdate_cases:
  "(rt_info s n = Some ri \<and> state ri = kCompleted \<and> dag s n = Some nd \<and> body nd = DataBody d \<longrightarrow>
      (if reference_count ri = 0 \<and> extern_rc d = 0
       then \<exists>s'. OnExternRCUpdate n s = Inr s' \<and> dag s' n = None \<and> rt_info s' n = None \<and>
              trace s' = trace s @ [ALock [n], AFreeData (data_id d), ARemoveNodeFromDag n,
                                    ARemoveNode n, AUnlock, ADelete n]
       else OnExternRCUpdate n s = Inr (s\<lparr>trace := trace s @ [ALock [n], AUnlock]\<rparr>))) \<and>
   (rt_info s n = Some ri \<and> state ri = kReady \<longrightarrow>
      OnExternRCUpdate n s = Inr (s\<lparr>trace := trace s @ [ALock [n], AUnlock]\<rparr>)) \<and>
   (rt_info s n = Some ri \<and> state ri = kOther \<longrightarrow>
      OnExternRCUpdate n s = Inl (Check 115))"
proof (intro conjI impI)
  assume a: "rt_info s n = Some ri \<and> state ri = kCompleted \<and> dag s n = Some nd \<and> body nd = DataBody d"
  let ?s0 = "FreeDataNodeRes d (Lock [n] s)"
  show "if reference_count ri = 0 \<and> extern_rc d = 0
       then \<exists>s'. OnExternRCUpdate n s = Inr s' \<and> dag s' n = None \<and> rt_info s' n = None \<and>
              trace s' = trace s @ [ALock [n], AFreeData (data_id d), ARemoveNodeFromDag n,
                                    ARemoveNode n, AUnlock, ADelete n]
       else OnExternRCUpdate n s = Inr (s\<lparr>trace := trace s @ [ALock [n], AUnlock]\<rparr>)"
  proof (cases "reference_count ri = 0 \<and> extern_rc d = 0")
    case True
    have "dag ?s0 n = Some nd"
      using a by (simp add: FreeDataNodeRes_def FreeData_def Lock_def emit_def)
    then obtain s1 where r: "RemoveNodeFromDag n ?s0 = Inr s1"
      using RemoveNodeFromDag_ok by blast
    have tr: "trace ?s0 = trace s @ [ALock [n], AFreeData (data_id d)]"
      by (simp add: FreeDataNodeRes_def FreeData_def Lock_def emit_def)
    have res: "OnExternRCUpdate n s = Inr (emit (ADelete n) (Unlock (OnDeleteNode n s1)))"
      using a True r
      by (simp add: OnExternRCUpdate_def Lock_def GetState_def At_def emit_def
          data_node_def GetNode_def Let_def)
    show ?thesis
      using True res RemoveNodeFromDag_Inr(2,5,6) [OF r] tr
      by (simp add: emit_def Unlock_def OnDeleteNode_def RemoveNode_def)
  next
    case False
    then show ?thesis
      using a
      by (auto simp: OnExternRCUpdate_def Lock_def Unlock_def GetState_def At_def emit_def
          data_node_def GetNode_def Let_def)
  qed
next
  assume "rt_info s n = Some ri \<and> state ri = kReady"
  then show "OnExternRCUpdate n s = Inr (s\<lparr>trace := trace s @ [ALock [n], AUnlock]\<rparr>)"
    by (simp add: OnExternRCUpdate_def Lock_def Unlock_def GetState_def At_def emit_def Let_def)
next
  assume "rt_info s n = Some ri \<and> state ri = kOther"
  then show "OnExternRCUpdate n s = Inl (Check 115)"
    by (simp add: OnExternRCUpdate_def Lock_def Unlock_def GetState_def At_def emit_def Let_def)
qed

theorem OnExternRCUpdate_cases_witness:
  "rt_info (SetExternRC 0 0 pinned_done) 0 =
     Some \<lparr>num_triggers_needed = 0, reference_count = 0, state = kCompleted\<rparr> \<and>
   dag (SetExternRC 0 0 pinned_done) 0 =
     Some \<lparr>predecessors = [], successors = [], body = DataBody D0\<rparr> \<and>
   (\<exists>s'. OnExternRCUpdate 0 (SetExternRC 0 0 pinned_done) = Inr s' \<and>
      dag s' 0 = None \<and> rt_info s' 0 = None \<and>
      trace s' = trace (SetExternRC 0 0 pinned_done) @
        [ALock [0], AFreeData 0, ARemoveNodeFromDag 0, ARemoveNode 0, AUnlock, ADelete 0]) \<and>
   rt_info pinned_done 0 =
     Some \<lparr>num_triggers_needed = 0, reference_count = 0, state = kCompleted\<rparr> \<and>
   dag pinned_done 0 =
     Some \<lparr>predecessors = [], successors = [], body = DataBody (D0\<lparr>extern_rc := 1\<rparr>)\<rparr> \<and>
   OnExternRCUpdate 0 pinned_done =
     Inr (pinned_done\<lparr>trace := trace pinned_done @ [ALock [0], AUnlock]\<rparr>) \<and>
   rt_info created 0 = Some \<lparr>num_triggers_needed = 1, reference_count = 0, state = kReady\<rparr> \<and>
   OnExternRCUpdate 0 created = Inr (created\<lparr>trace := trace created @ [ALock [0], AUnlock]\<rparr>) \<and>
   rt_info (set_info 0 \<lparr>num_triggers_needed = 1, reference_count = 0, state = kOther\<rparr> created) 0 =
     Some \<lparr>num_triggers_needed = 1, reference_count = 0, state = kOther\<rparr> \<and>
   OnExternRCUpdate 0 (set_info 0 \<lparr>num_triggers_needed = 1, reference_count = 0, state = kOther\<rparr> created) =
     Inl (Check 115)"
proof -
  let ?rc = "\<lparr>num_triggers_needed = 0, reference_count = 0, state = kCompleted\<rparr>"
  let ?ro = "\<lparr>num_triggers_needed = 1, reference_count = 0, state = kOther\<rparr>"
  let ?n0 = "\<lparr>predecessors = [], successors = [], body = DataBody D0\<rparr>"
  let ?n1 = "\<lparr>predecessors = [], successors = [], body = DataBody (D0\<lparr>extern_rc := 1\<rparr>)\<rparr>"
  have a1: "rt_info (SetExternRC 0 0 pinned_done) 0 = Some ?rc"
    by (simp add: SetExternRC_def pinned_done_def)
  have a2: "dag (SetExternRC 0 0 pinned_done) 0 = Some ?n0"
    by (simp add: SetExternRC_def pinned_done_def D0_def)
  have a3: "data_id D0 = 0" "extern_rc D0 = 0" "extern_rc (D0\<lparr>extern_rc := 1\<rparr>) = 1"
    by (simp_all add: D0_def)
  have b1: "rt_info pinned_done 0 = Some ?rc"
    by (simp add: pinned_done_def)
  have b2: "dag pinned_done 0 = Some ?n1"
    by (simp add: pinned_done_def)
  have c1: "rt_info (set_info 0 ?ro created) 0 = Some ?ro"
    by (simp add: set_info_def)
  show ?thesis
    using OnExternRCUpdate_cases [of "SetExternRC 0 0 pinned_done" 0 ?rc ?n0 D0]
      OnExternRCUpdate_cases [of pinned_done 0 ?rc ?n1 "D0\<lparr>extern_rc := 1\<rparr>"]
      OnExternRCUpdate_cases [of created 0
        "\<lparr>num_triggers_needed = 1, reference_count = 0, state = kReady\<rparr>"]
      OnExternRCUpdate_cases [of "set_info 0 ?ro created" 0 ?ro]
      a1 a2 a3 b1 b2 c1 created_info_0
    by simp
qed

section \<open>Waiting for all nodes\<close>

lemma wait_loop_Returned:
  "wait_loop vs k = Returned m \<Longrightarrow>
     k \<le> m \<and> m - k < length vs \<and> vs ! (m - k) = 0 \<and> (\<forall>j < m - k. vs ! j \<noteq> 0)"
proof (induction vs arbitrary: k)
  case Nil
  then show ?case by simp
next
  case (Cons v vs)
  show ?case
  proof (cases "v = 0")
    case True
    with Cons.prems show ?thesis by simp
  next
    case False
    with Cons.prems have r: "wait_loop vs (k + 1) = Returned m" by simp
    from Cons.IH [OF r] have ih: "k + 1 \<le> m" "m - (k + 1) < length vs"
      "vs ! (m - (k + 1)) = 0" "\<forall>j < m - (k + 1). vs ! j \<noteq> 0" by auto
    have mk: "m - k = Suc (m - (k + 1))" using ih(1) by simp
    show ?thesis
      unfolding mk using ih False
      by (auto simp: nth_Cons split: nat.splits)
  qed
qed

lemma wait_loop_returns: "0 \<in> set vs \<Longrightarrow> \<exists>m. wait_loop vs k = Returned m"
  by (induction vs arbitrary: k) auto

text \<open>
  Claim C8. \<open>WaitForAll\<close> aborts at the check of line 71 when \<open>target\<close> is not \<open>-1\<close>.
  Otherwise it returns after \<open>k\<close> waits only if the counter
  \<open>num_nodes_yet_to_finish\<close> read at that moment is 0 and every earlier read was not 0;
  it does return when some read is 0, and it is still blocked when none is.
\<close>

theorem WaitForAll_target_or_zero:
  "(target s \<noteq> - 1 \<longrightarrow> WaitForAll s obs = Inl (Check 71)) \<and>
   (target s = - 1 \<longrightarrow>
      (\<forall>k. WaitForAll s obs = Inr (Returned k) \<longrightarrow>
         k < length (num_nodes_yet_to_finish s # obs) \<and>
         (num_nodes_yet_to_finish s # obs) ! k = 0 \<and>
         (\<forall>j < k. (num_nodes_yet_to_finish s # obs) ! j \<noteq> 0)) \<and>
      (0 \<in> set (num_nodes_yet_to_finish s # obs) \<longrightarrow>
         (\<exists>k. WaitForAll s obs = Inr (Returned k))) \<and>
      (0 \<notin> set (num_nodes_yet_to_finish s # obs) \<longrightarrow>
         WaitForAll s obs = Inr Blocked))"
proof -
  have blocked: "0 \<notin> set vs \<Longrightarrow> wait_loop vs k = Blocked" for vs k
    by (induction vs arbitrary: k) auto
  show ?thesis
    using wait_loop_Returned [of "num_nodes_yet_to_finish s # obs" 0]
      wait_loop_returns [of "num_nodes_yet_to_finish s # obs" 0]
      blocked [of "num_nodes_yet_to_finish s # obs" 0]
    by (auto simp: WaitForAll_def)
qed

theorem WaitForAll_target_or_zero_witness:
  "target (init\<lparr>target := 3\<rparr>) \<noteq> - 1 \<and> WaitForAll (init\<lparr>target := 3\<rparr>) [] = Inl (Check 71) \<and>
   target (init\<lparr>num_nodes_yet_to_finish := 2\<rparr>) = - 1 \<and>
   0 \<in> set (num_nodes_yet_to_finish (init\<lparr>num_nodes_yet_to_finish := 2\<rparr>) # [1, 0, 5]) \<and>
   WaitForAll (init\<lparr>num_nodes_yet_to_finish := 2\<rparr>) [1, 0, 5] = Inr (Returned 2) \<and>
   0 \<notin> set (num_nodes_yet_to_finish (init\<lparr>num_nodes_yet_to_finish := 2\<rparr>) # [1]) \<and>
   WaitForAll (init\<lparr>num_nodes_yet_to_finish := 2\<rparr>) [1] = Inr Blocked"
  using WaitForAll_target_or_zero [of "init\<lparr>target := 3\<rparr>" "[]"]
    WaitForAll_target_or_zero [of "init\<lparr>num_nodes_yet_to_finish := 2\<rparr>" "[1, 0, 5]"]
    WaitForAll_target_or_zero [of "init\<lparr>num_nodes_yet_to_finish := 2\<rparr>" "[1]"]
  by (simp add: init_def WaitForAll_def)

section \<open>Dispatch of an op whose input is given twice\<close>

text \<open>
  Claim C9. The run below ends in a state where op 3 will not be pushed although its
  only predecessor, data node 0, is \<open>kCompleted\<close>. From \<open>op_done\<close>, where data node 0 is
  still \<open>kReady\<close>, \<open>Create\<close> is called with the handle of data node 0 given twice.
  \<open>OnCreateEdge\<close> runs once per entry of the parameter list and raises
  \<open>num_triggers_needed\<close> of the new op 3 to 2, while the successor set of data node 0 holds
  op 3 once. When data node 0 completes, the loop over its successors decrements the
  counter once, to 1. The queue is then empty and no device holds a task, so the
  dispatcher stays blocked; op 3 is \<open>kReady\<close> with all predecessors completed and has
  never been pushed, and \<open>WaitForAll\<close> returns. The state is reachable
  (\<open>dup_stuck_reachable\<close>). The other parts of the claim hold in every reachable state:
  a task is pushed only for a node whose predecessors are all \<open>kCompleted\<close>
  (\<open>dispatched_after_inputs\<close>), and no node is pushed twice (\<open>pushed_at_most_once\<close>).
\<close>

theorem duplicate_input_never_dispatched:
  "Create [] [[4]] 7 init = Inr ([DagChunk 0], created) \<and>
   bind_err (DispatcherRoutine 1 created) (\<lambda>s. DispatcherRoutine 1 (DeviceReports s)) =
     Inr op_done \<and>
   map_option state (rt_info op_done 0) = Some kReady \<and>
   Create [DagChunk 0, DagChunk 0] [[4]] 8 op_done = Inr ([DagChunk 2], dup_created) \<and>
   map_option predecessors (dag dup_created 3) = Some [0] \<and>
   map_option successors (dag dup_created 0) = Some [3] \<and>
   map_option num_triggers_needed (rt_info dup_created 3) = Some 2 \<and>
   DispatcherRoutine 1 dup_created = Inr dup_stuck \<and>
   map_option predecessors (dag dup_stuck 3) = Some [0] \<and>
   map_option state (rt_info dup_stuck 0) = Some kCompleted \<and>
   rt_info dup_stuck 3 = Some \<lparr>num_triggers_needed = 1, reference_count = 1, state = kReady\<rparr> \<and>
   pushed (trace dup_stuck) = [1] \<and>
   dispatcher_queue dup_stuck = [] \<and> dm_tasks dup_stuck = [] \<and>
   DispatcherRoutine 1 dup_stuck = Inr dup_stuck \<and>
   DeviceReports dup_stuck = dup_stuck \<and>
   WaitForAll dup_stuck [] = Inr (Returned 0)"
proof -
  have a: "map_option state (rt_info op_done 0) = Some kReady"
    by (simp add: op_done_def)
  have b: "map_option predecessors (dag dup_created 3) = Some [0]"
    "map_option successors (dag dup_created 0) = Some [3]"
    "map_option num_triggers_needed (rt_info dup_created 3) = Some 2"
    by (simp_all add: dup_created_def N3'_def)
  have c: "map_option predecessors (dag dup_stuck 3) = Some [0]"
    "map_option state (rt_info dup_stuck 0) = Some kCompleted"
    "rt_info dup_stuck 3 = Some \<lparr>num_triggers_needed = 1, reference_count = 1, state = kReady\<rparr>"
    "dispatcher_queue dup_stuck = []" "dm_tasks dup_stuck = []"
    by (simp_all add: dup_stuck_def N3'_def)
  have d: "pushed (trace dup_stuck) = [1]"
    by (simp add: dup_stuck_def dup_created_def op_done_def created_def T1_def)
  have e: "DispatcherRoutine 1 dup_stuck = Inr dup_stuck" "DeviceReports dup_stuck = dup_stuck"
    using c(4,5) by (simp_all add: DeviceReports_def)
  have f: "WaitForAll dup_stuck [] = Inr (Returned 0)"
    by (simp add: WaitForAll_def dup_stuck_def)
  show ?thesis
    using Create_created op_done_reached dup_created_reached dup_stuck_reached a b c d e f
    by simp
qed

section \<open>Completion of an op node that nobody references\<close>

lemma Create_no_results:
  assumes c: "Create params [] fn s = Inr (ret, s')"
    and fresh: "\<forall>i. DagChunk i \<in> set params \<longrightarrow> i < dag_next_id s"
  shows "ret = []"
    and "\<exists>p ins outs. map_option body (dag s' (dag_next_id s)) = Some (OpBody p ins outs)"
    and "map_option reference_count (rt_info s' (dag_next_id s)) = Some 0"
proof -
  from c obtain rs s1 ps s4 s5 s7 s8 s9 where
    n: "NewResultNodes [] (current_device_id s) s = (rs, s1)" and
    ps: "MapE params chunk_node = Inr ps" and
    ret: "ret = map DagChunk rs" and
    o: "NewOpNode ps rs \<lparr>compute_fn = fn, op_device_id = 0\<rparr>
       (Lock ps (fold OnCreateNode rs s1)) = (dag_next_id s1, s4)" and
    s5: "s5 = OnCreateNode (dag_next_id s1)
                (set_op_device (dag_next_id s1) (current_device_id s) s4)" and
    e1: "Iter ps (\<lambda>n. OnCreateEdge n (dag_next_id s1)) s5 = Inr s7" and
    e2: "Iter rs (\<lambda>n. OnCreateEdge (dag_next_id s1) n) s7 = Inr s8" and
    p: "ProcessIfReady (dag_next_id s1) s8 = Inr s9" and
    s': "s' = Unlock s9"
    by (rule Create_steps)
  have rs: "rs = []" and s1: "s1 = s"
    using n by simp_all
  show "ret = []"
    using ret rs by simp
  let ?i = "dag_next_id s"
  have notin: "?i \<notin> set ps"
    using fresh MapE_chunk_node [OF ps] by auto
  have s8: "s8 = s7"
    using Iter_OnCreateEdge_to(3) [OF e2] rs by simp
  have dag': "dag s' = dag s5"
    using Iter_OnCreateEdge_from(1) [OF e1] ProcessIfReady_frame(1) [OF p] s8 s'
    by (simp add: Unlock_def emit_def)
  have "map_option body (dag s4 ?i) = Some (OpBody \<lparr>compute_fn = fn, op_device_id = 0\<rparr> ps rs)"
    using NewOpNode_body [OF o] s1 by simp
  then have "\<exists>p ins outs. map_option body (dag s5 ?i) = Some (OpBody p ins outs)"
    unfolding s5 s1
    by (auto simp: OnCreateNode_def AddNode_def emit_def set_op_device_def
        split: option.splits NodeBody.splits)
  then show "\<exists>p ins outs. map_option body (dag s' ?i) = Some (OpBody p ins outs)"
    using dag' by simp
  have "map_option reference_count (rt_info s5 ?i) = Some 0"
    unfolding s5 s1
    by (simp add: OnCreateNode_def AddNode_def emit_def)
  then have "map_option reference_count (rt_info s7 ?i) = Some 0"
    using Iter_OnCreateEdge_from(3) [OF e1, of ?i] notin s1 by simp
  then show "map_option reference_count (rt_info s' ?i) = Some 0"
    using ProcessIfReady_frame(2) [OF p] s8 s' by (simp add: Unlock_def emit_def)
qed

text \<open>
  Claim C10. Processing a completion event for an op node whose \<open>reference_count\<close> is 0
  aborts at the check of line 184. An op that \<open>Create\<close> makes for an empty list of result
  sizes, from handles of nodes allocated earlier, has \<open>reference_count\<close> 0.
\<close>

theorem unreferenced_op_completion_aborts:
  "(dag s n = Some nd \<and> Type nd = kOpNode \<and> rt_info s n = Some ri \<and> reference_count ri = 0 \<longrightarrow>
      DispatcherBody (kToComplete, n) s = Inl (Check 184)) \<and>
   ((\<forall>i. DagChunk i \<in> set params \<longrightarrow> i < dag_next_id s) \<and>
    Create params [] fn s = Inr (ret, s') \<longrightarrow>
      ret = [] \<and>
      (\<exists>nd' ri'. dag s' (dag_next_id s) = Some nd' \<and> Type nd' = kOpNode \<and>
         rt_info s' (dag_next_id s) = Some ri' \<and> reference_count ri' = 0 \<and>
         DispatcherBody (kToComplete, dag_next_id s) s' = Inl (Check 184)))"
proof (intro conjI impI)
  show g: "DispatcherBody (kToComplete, n) s = Inl (Check 184)"
    if "dag s n = Some nd \<and> Type nd = kOpNode \<and> rt_info s n = Some ri \<and> reference_count ri = 0"
    for s n nd ri
    using that
    by (simp add: DispatcherBody_def GetNode_def At_def Lock_def emit_def CompleteOp_def Let_def)
  assume a: "(\<forall>i. DagChunk i \<in> set params \<longrightarrow> i < dag_next_id s) \<and>
    Create params [] fn s = Inr (ret, s')"
  then have c: "Create params [] fn s = Inr (ret, s')"
    and f: "\<forall>i. DagChunk i \<in> set params \<longrightarrow> i < dag_next_id s"
    by simp_all
  show "ret = []"
    using Create_no_results(1) [OF c f] .
  from Create_no_results(2) [OF c f] obtain nd' p ins outs where
    nd': "dag s' (dag_next_id s) = Some nd'" "body nd' = OpBody p ins outs"
    by auto
  from Create_no_results(3) [OF c f] obtain ri' where
    ri': "rt_info s' (dag_next_id s) = Some ri'" "reference_count ri' = 0"
    by auto
  have ty: "Type nd' = kOpNode"
    using nd'(2) by (simp add: Type_def)
  show "\<exists>nd' ri'. dag s' (dag_next_id s) = Some nd' \<and> Type nd' = kOpNode \<and>
         rt_info s' (dag_next_id s) = Some ri' \<and> reference_count ri' = 0 \<and>
         DispatcherBody (kToComplete, dag_next_id s) s' = Inl (Check 184)"
    using nd'(1) ty ri' g [of s' "dag_next_id s" nd' ri'] by blast
qed

text \<open>
  The witness: an op without inputs and without results is submitted to the initial
  scheduler, dispatched and reported by the device; the dispatcher then aborts.
\<close>

theorem unreferenced_op_completion_aborts_witness:
  "Create [] [] 7 init = Inr ([], unreferenced) \<and>
   bind_err (DispatcherRoutine 1 unreferenced) (\<lambda>s. Inr (DeviceReports s)) =
     Inr unreferenced_reported \<and>
   dispatcher_queue unreferenced_reported = [(kToComplete, 0)] \<and>
   rt_info unreferenced_reported 0 =
     Some \<lparr>num_triggers_needed = 0, reference_count = 0, state = kReady\<rparr> \<and>
   DispatcherBody (kToComplete, 0) (unreferenced_reported\<lparr>dispatcher_queue := []\<rparr>) =
     Inl (Check 184) \<and>
   DispatcherRoutine 1 unreferenced_reported = Inl (Check 184) \<and>
   DispatcherBody (kToComplete, 0) unreferenced = Inl (Check 184)"
proof -
  let ?nd = "\<lparr>predecessors = [], successors = [],
      body = OpBody \<lparr>compute_fn = 7, op_device_id = 0\<rparr> [] []\<rparr>"
  let ?ri = "\<lparr>num_triggers_needed = 0, reference_count = 0, state = kReady\<rparr>"
  let ?popped = "unreferenced_reported\<lparr>dispatcher_queue := []\<rparr>"
  have c: "Create [] [] 7 init = Inr ([], unreferenced)"
    by (simp add: unreferenced_def create_defs init_def fun_eq_iff)
  have r: "bind_err (DispatcherRoutine 1 unreferenced) (\<lambda>s. Inr (DeviceReports s)) =
     Inr unreferenced_reported"
    by (simp add: unreferenced_def unreferenced_reported_def dispatch_defs DeviceReports_def
        OnOperationComplete_def fun_eq_iff)
  have d: "dag ?popped 0 = Some ?nd" and i: "rt_info ?popped 0 = Some ?ri"
    and i': "rt_info unreferenced_reported 0 = Some ?ri"
    and q: "dispatcher_queue unreferenced_reported = [(kToComplete, 0)]"
    by (simp_all add: unreferenced_reported_def unreferenced_def)
  have b: "DispatcherBody (kToComplete, 0) ?popped = Inl (Check 184)"
    using unreferenced_op_completion_aborts [of ?popped 0 ?nd ?ri] d i
    by (simp add: Type_def)
  have b2: "dag_next_id init = 0" "set ([] :: BackendChunk list) = {}"
    by (simp_all add: init_def)
  have u: "DispatcherBody (kToComplete, 0) unreferenced = Inl (Check 184)"
    using unreferenced_op_completion_aborts [where params = "[]" and s = init and fn = 7
        and ret = "[]" and s' = unreferenced and n = 0 and ri = ?ri and nd = ?nd] c b2
    by auto
  have "DispatcherRoutine 1 unreferenced_reported = Inl (Check 184)"
    using b q by simp
  then show ?thesis
    using c r q i' b u by simp
qed

end
